theory Spec2Isabelle
  imports Main
begin

section \<open>Python strings\<close>

text \<open>
  A Python \<^verbatim>\<open>str\<close> is a sequence of Unicode code points and \<^verbatim>\<open>len\<close> counts code
  points, so a string is a list of code points here. \<open>lit\<close> turns an ASCII literal
  into such a list.
\<close>

type_synonym cp = nat
type_synonym str = "cp list"

definition lit :: "string \<Rightarrow> str" where
  "lit s = map of_char s"

text \<open>
  \<^verbatim>\<open>str.isspace\<close>, which is also what \<^verbatim>\<open>str.strip()\<close> removes and what \<^verbatim>\<open>\s\<close> matches in
  a \<^verbatim>\<open>str\<close> pattern of \<^verbatim>\<open>re\<close>: the Unicode whitespace code points.
\<close>

definition isspace :: "cp \<Rightarrow> bool" where
  "isspace c \<longleftrightarrow>
     (0x09 \<le> c \<and> c \<le> 0x0D) \<or> (0x1C \<le> c \<and> c \<le> 0x20) \<or> c = 0x85 \<or> c = 0xA0 \<or>
     c = 0x1680 \<or> (0x2000 \<le> c \<and> c \<le> 0x200A) \<or> c = 0x2028 \<or> c = 0x2029 \<or>
     c = 0x202F \<or> c = 0x205F \<or> c = 0x3000"

text \<open>The line boundaries of \<^verbatim>\<open>str.splitlines\<close>.\<close>

definition linebreak :: "cp \<Rightarrow> bool" where
  "linebreak c \<longleftrightarrow>
     (0x0A \<le> c \<and> c \<le> 0x0D) \<or> (0x1C \<le> c \<and> c \<le> 0x1E) \<or> c = 0x85 \<or>
     c = 0x2028 \<or> c = 0x2029"

text \<open>
  The character class \<^verbatim>\<open>[\\/:*?"<>|]\<close> of both sanitizers: backslash, slash, colon,
  star, question mark, double quote, less, greater, bar.
\<close>

definition reserved :: "cp \<Rightarrow> bool" where
  "reserved c \<longleftrightarrow>
     c = 0x5C \<or> c = 0x2F \<or> c = 0x3A \<or> c = 0x2A \<or> c = 0x3F \<or> c = 0x22 \<or>
     c = 0x3C \<or> c = 0x3E \<or> c = 0x7C"

text \<open>\<^verbatim>\<open>s.strip()\<close>\<close>

definition strip :: "str \<Rightarrow> str" where
  "strip s = rev (dropWhile isspace (rev (dropWhile isspace s)))"

text \<open>
  \<^verbatim>\<open>re.sub(r"[...]+", r, s)\<close> for a character class \<open>P\<close>: every maximal run of
  characters of the class is replaced by \<open>r\<close>.
\<close>

fun sub_runs :: "(cp \<Rightarrow> bool) \<Rightarrow> str \<Rightarrow> str \<Rightarrow> str" where
  "sub_runs P r [] = []"
| "sub_runs P r [c] = (if P c then r else [c])"
| "sub_runs P r (c # d # cs) =
     (if P c then (if P d then sub_runs P r (d # cs) else r @ sub_runs P r (d # cs))
      else c # sub_runs P r (d # cs))"

text \<open>
  \<^verbatim>\<open>s.splitlines()\<close>: a line ends at a line boundary, \<^verbatim>\<open>\r\n\<close> counting as one; the
  text after the last boundary is a line only when it is not empty. The first
  argument holds the current line, reversed.
\<close>

fun splitlines_from :: "str \<Rightarrow> str \<Rightarrow> str list" where
  "splitlines_from cur [] = (if cur = [] then [] else [rev cur])"
| "splitlines_from cur [c] = (if linebreak c then [rev cur] else [rev (c # cur)])"
| "splitlines_from cur (c # d # cs) =
     (if c = 0x0D \<and> d = 0x0A then rev cur # splitlines_from [] cs
      else if linebreak c then rev cur # splitlines_from [] (d # cs)
      else splitlines_from (c # cur) (d # cs))"

definition splitlines :: "str \<Rightarrow> str list" where
  "splitlines s = splitlines_from [] s"

text \<open>\<^verbatim>\<open>sep.join(xs)\<close>\<close>

fun str_join :: "str \<Rightarrow> str list \<Rightarrow> str" where
  "str_join sep [] = []"
| "str_join sep [x] = x"
| "str_join sep (x # y # ys) = x @ sep @ str_join sep (y # ys)"

text \<open>
  \<^verbatim>\<open>str.isalpha\<close>, \<^verbatim>\<open>str.isdigit\<close> and \<^verbatim>\<open>str.upper\<close> read the Unicode character database
  of the Python runtime, which is no part of the repository: the program is modelled
  for any such tables. \<^verbatim>\<open>upper\<close> acts on whole strings, since it may change the length.
\<close>

record unicode_db =
  isalpha :: "cp \<Rightarrow> bool"
  isdigit :: "cp \<Rightarrow> bool"
  upper :: "str \<Rightarrow> str"

text \<open>The tables restricted to ASCII, where they are what Python computes.\<close>

definition ascii_db :: unicode_db where
  "ascii_db =
     \<lparr> isalpha = (\<lambda>c. (0x41 \<le> c \<and> c \<le> 0x5A) \<or> (0x61 \<le> c \<and> c \<le> 0x7A)),
       isdigit = (\<lambda>c. 0x30 \<le> c \<and> c \<le> 0x39),
       upper = map (\<lambda>c. if 0x61 \<le> c \<and> c \<le> 0x7A then c - 0x20 else c) \<rparr>"

section \<open>Documents and the libraries that read them\<close>

text \<open>
  PyMuPDF, PIL and pytesseract are external. A page is what the two ways of reading
  it give: \<open>get_text\<close> is the outcome of \<^verbatim>\<open>doc.load_page(i).get_text()\<close>, and
  \<open>ocr_text\<close> the outcome of rendering the page and running
  \<^verbatim>\<open>pytesseract.image_to_string\<close> on the image. Either may raise; an exception is a
  value of \<open>exn\<close> (any exception derived from \<^verbatim>\<open>Exception\<close>).
\<close>

datatype exn = Open_failed | Page_failed | Ocr_failed

datatype pdf_page = Page (get_text: "exn + str") (ocr_text: "exn + str")

text \<open>\<open>fitz_open\<close> is \<^verbatim>\<open>fitz.open(path)\<close>: the pages of the document, or an exception.\<close>

record world =
  fitz_open :: "str \<Rightarrow> exn + pdf_page list"

text \<open>
  What a run does to document handles, and whether it enters the OCR fallback, is
  recorded as a trace of events.
\<close>

datatype event = Doc_open str | Doc_close str | Call_ocr str

text \<open>The handles a trace leaves open.\<close>

fun open_handles :: "event list \<Rightarrow> str list \<Rightarrow> str list" where
  "open_handles [] hs = hs"
| "open_handles (Doc_open p # es) hs = open_handles es (p # hs)"
| "open_handles (Doc_close p # es) hs = open_handles es (remove1 p hs)"
| "open_handles (Call_ocr p # es) hs = open_handles es hs"

text \<open>\<^verbatim>\<open>os.path.basename\<close> and the root of \<^verbatim>\<open>os.path.splitext\<close> (posixpath).\<close>

definition basename :: "str \<Rightarrow> str" where
  "basename p = rev (takeWhile (\<lambda>c. c \<noteq> 0x2F) (rev p))"

definition splitext_root :: "str \<Rightarrow> str" where
  "splitext_root p =
     (if 0x2E \<in> set p then
        (let root = rev (tl (dropWhile (\<lambda>c. c \<noteq> 0x2E) (rev p)))
         in if list_ex (\<lambda>c. c \<noteq> 0x2E) root then root else p)
      else p)"

section \<open>The case-preserving variant: src/src/pdf-renamer-gui\<close>

text \<open>
  \<^verbatim>\<open>safe_filename\<close>: strip, replace each reserved character by a hyphen, collapse every
  run of whitespace to one space.
\<close>

definition safe_filename :: "str \<Rightarrow> str" where
  "safe_filename name =
     sub_runs isspace (lit '' '')
       (map (\<lambda>c. if reserved c then 0x2D else c) (strip name))"

text \<open>
  The loop of \<^verbatim>\<open>extract_text_from_pdf\<close> and of \<^verbatim>\<open>ocr_first_pages\<close>: read each page
  with \<open>rd\<close> and keep its text when it is not blank. An exception leaves the loop.
\<close>

fun collect_chunks :: "(pdf_page \<Rightarrow> exn + str) \<Rightarrow> pdf_page list \<Rightarrow> str list \<Rightarrow> exn + str list" where
  "collect_chunks rd [] chunks = Inr chunks"
| "collect_chunks rd (page # pages) chunks =
     (case rd page of
        Inl e \<Rightarrow> Inl e
      | Inr txt \<Rightarrow> collect_chunks rd pages (if strip txt \<noteq> [] then chunks @ [txt] else chunks))"

text \<open>
  The \<^verbatim>\<open>try\<close> block of \<^verbatim>\<open>extract_text_from_pdf\<close>: open, read
  \<^verbatim>\<open>min(len(doc), max_pages)\<close> pages, close. \<^verbatim>\<open>doc.close()\<close> is the last statement
  of the block, so an exception raised by a page leaves the block before it.
\<close>

definition extract_text_from_pdf_try :: "world \<Rightarrow> str \<Rightarrow> nat \<Rightarrow> (exn + str list) \<times> event list" where
  "extract_text_from_pdf_try w pdf_path max_pages =
     (case fitz_open w pdf_path of
        Inl e \<Rightarrow> (Inl e, [])
      | Inr doc \<Rightarrow>
          (case collect_chunks get_text (take (min (length doc) max_pages) doc) [] of
             Inl e \<Rightarrow> (Inl e, [Doc_open pdf_path])
           | Inr text_chunks \<Rightarrow> (Inr text_chunks, [Doc_open pdf_path, Doc_close pdf_path])))"

text \<open>
  \<^verbatim>\<open>extract_text_from_pdf\<close>: \<^verbatim>\<open>except Exception: return ""\<close>, and after the block the
  chunks joined by newlines and stripped.
\<close>

definition extract_text_from_pdf :: "world \<Rightarrow> str \<Rightarrow> nat \<Rightarrow> (exn + str) \<times> event list" where
  "extract_text_from_pdf w pdf_path max_pages =
     (case extract_text_from_pdf_try w pdf_path max_pages of
        (Inl e, tr) \<Rightarrow> (Inr [], tr)
      | (Inr text_chunks, tr) \<Rightarrow> (Inr (strip (str_join [0x0A] text_chunks)), tr))"

text \<open>\<^verbatim>\<open>ocr_first_pages\<close>: the same shape, the whole body inside the \<^verbatim>\<open>try\<close>.\<close>

definition ocr_first_pages_try :: "world \<Rightarrow> str \<Rightarrow> nat \<Rightarrow> (exn + str) \<times> event list" where
  "ocr_first_pages_try w pdf_path max_pages =
     (case fitz_open w pdf_path of
        Inl e \<Rightarrow> (Inl e, [Call_ocr pdf_path])
      | Inr doc \<Rightarrow>
          (case collect_chunks ocr_text (take (min (length doc) max_pages) doc) [] of
             Inl e \<Rightarrow> (Inl e, [Call_ocr pdf_path, Doc_open pdf_path])
           | Inr ocr_chunks \<Rightarrow>
               (Inr (strip (str_join [0x0A] ocr_chunks)),
                [Call_ocr pdf_path, Doc_open pdf_path, Doc_close pdf_path])))"

definition ocr_first_pages :: "world \<Rightarrow> str \<Rightarrow> nat \<Rightarrow> (exn + str) \<times> event list" where
  "ocr_first_pages w pdf_path max_pages =
     (case ocr_first_pages_try w pdf_path max_pages of
        (Inl e, tr) \<Rightarrow> (Inr [], tr)
      | (Inr text, tr) \<Rightarrow> (Inr text, tr))"

text \<open>
  The lines \<^verbatim>\<open>propose_new_name\<close> works on: stripped, not blank, of length at least 3.
\<close>

definition retained_lines :: "str \<Rightarrow> str list" where
  "retained_lines text =
     filter (\<lambda>ln. 3 \<le> length ln)
       (map strip (filter (\<lambda>ln. strip ln \<noteq> []) (splitlines text)))"

text \<open>The company loop: the first line with at least 6 letters and more letters than digits.\<close>

fun company_loop :: "unicode_db \<Rightarrow> str list \<Rightarrow> str" where
  "company_loop db [] = []"
| "company_loop db (ln # lns) =
     (let letters = length (filter (isalpha db) ln);
          digits = length (filter (isdigit db) ln)
      in if 6 \<le> letters \<and> digits < letters then ln else company_loop db lns)"

text \<open>The description loop: lines equal to a non-empty company are passed over.\<close>

fun desc_loop :: "str \<Rightarrow> str list \<Rightarrow> str" where
  "desc_loop company [] = []"
| "desc_loop company (ln # lns) =
     (if company \<noteq> [] \<and> ln = company then desc_loop company lns
      else if 6 \<le> length ln then ln
      else desc_loop company lns)"

definition company_of :: "unicode_db \<Rightarrow> str \<Rightarrow> str" where
  "company_of db text = company_loop db (take 30 (retained_lines text))"

definition desc_of :: "unicode_db \<Rightarrow> str \<Rightarrow> str" where
  "desc_of db text = desc_loop (company_of db text) (take 60 (retained_lines text))"

text \<open>
  The part of \<^verbatim>\<open>propose_new_name\<close> after text acquisition, as a function of the text
  and the base name of the file.
\<close>

definition propose_name :: "unicode_db \<Rightarrow> str \<Rightarrow> str \<Rightarrow> str" where
  "propose_name db text base =
     (if text = [] then safe_filename base @ lit ''.pdf''
      else
        let company = company_of db text;
            desc = desc_of db text
        in if company = [] \<and> desc = [] then safe_filename base @ lit ''.pdf''
           else
             let company = strip (take 60 company);
                 desc = strip (take 80 desc);
                 new_base =
                   (if company \<noteq> [] \<and> desc \<noteq> [] then company @ lit '' - '' @ desc
                    else if company \<noteq> [] then company else desc)
             in safe_filename new_base @ lit ''.pdf'')"

text \<open>
  \<^verbatim>\<open>propose_new_name\<close>: direct extraction of two pages, OCR of the first page when that
  gave nothing, then the name. An exception of a callee would pass through.
\<close>

definition propose_new_name :: "unicode_db \<Rightarrow> world \<Rightarrow> str \<Rightarrow> (exn + str) \<times> event list" where
  "propose_new_name db w pdf_path =
     (let base = splitext_root (basename pdf_path) in
      case extract_text_from_pdf w pdf_path 2 of
        (Inl e, tr) \<Rightarrow> (Inl e, tr)
      | (Inr text, tr) \<Rightarrow>
          if text = [] then
            (case ocr_first_pages w pdf_path 1 of
               (Inl e, tr') \<Rightarrow> (Inl e, tr @ tr')
             | (Inr text', tr') \<Rightarrow> (Inr (propose_name db text' base), tr @ tr'))
          else (Inr (propose_name db text base), tr))"

section \<open>The upper-case variant: src/pdf-renamer-gui\<close>

definition COMPANY_SHORT_MAP :: "(str \<times> str) list" where
  "COMPANY_SHORT_MAP =
     [(lit ''AQ PACK (M) SDN BHD'', lit ''AQP''),
      (lit ''AQ PACK (PENANG) SDN BHD'', lit ''AQPP''),
      (lit ''TENAGA NASIONAL'', lit ''TNB''),
      (lit ''MAXIS'', lit ''MAXIS'')]"

definition MAX_COMPANY_LEN :: nat where
  "MAX_COMPANY_LEN = 20"

definition MAX_DESC_LEN :: nat where
  "MAX_DESC_LEN = 60"

text \<open>
  \<^verbatim>\<open>clean\<close>: upper case, every run of reserved characters to one space, every run of
  whitespace to one space, strip.
\<close>

definition clean :: "unicode_db \<Rightarrow> str \<Rightarrow> str" where
  "clean db s = strip (sub_runs isspace (lit '' '') (sub_runs reserved (lit '' '') (upper db s)))"

text \<open>The loop of \<^verbatim>\<open>extract_text\<close> and of \<^verbatim>\<open>extract_ocr\<close>: \<^verbatim>\<open>text += ...\<close> page by page.\<close>

fun concat_pages :: "(pdf_page \<Rightarrow> exn + str) \<Rightarrow> pdf_page list \<Rightarrow> str \<Rightarrow> exn + str" where
  "concat_pages rd [] text = Inr text"
| "concat_pages rd (page # pages) text =
     (case rd page of
        Inl e \<Rightarrow> Inl e
      | Inr txt \<Rightarrow> concat_pages rd pages (text @ txt))"

definition extract_text_try :: "world \<Rightarrow> str \<Rightarrow> (exn + str) \<times> event list" where
  "extract_text_try w pdf =
     (case fitz_open w pdf of
        Inl e \<Rightarrow> (Inl e, [])
      | Inr doc \<Rightarrow>
          (case concat_pages get_text (take (min 2 (length doc)) doc) [] of
             Inl e \<Rightarrow> (Inl e, [Doc_open pdf])
           | Inr text \<Rightarrow> (Inr (strip text), [Doc_open pdf, Doc_close pdf])))"

text \<open>\<^verbatim>\<open>extract_text\<close>: a bare \<^verbatim>\<open>except: return ""\<close> around the block.\<close>

definition extract_text :: "world \<Rightarrow> str \<Rightarrow> (exn + str) \<times> event list" where
  "extract_text w pdf =
     (case extract_text_try w pdf of
        (Inl e, tr) \<Rightarrow> (Inr [], tr)
      | (Inr text, tr) \<Rightarrow> (Inr text, tr))"

definition extract_ocr_try :: "world \<Rightarrow> str \<Rightarrow> (exn + str) \<times> event list" where
  "extract_ocr_try w pdf =
     (case fitz_open w pdf of
        Inl e \<Rightarrow> (Inl e, [Call_ocr pdf])
      | Inr doc \<Rightarrow>
          (case concat_pages ocr_text (take (min 2 (length doc)) doc) [] of
             Inl e \<Rightarrow> (Inl e, [Call_ocr pdf, Doc_open pdf])
           | Inr text \<Rightarrow> (Inr (strip text), [Call_ocr pdf, Doc_open pdf, Doc_close pdf])))"

definition extract_ocr :: "world \<Rightarrow> str \<Rightarrow> (exn + str) \<times> event list" where
  "extract_ocr w pdf =
     (case extract_ocr_try w pdf of
        (Inl e, tr) \<Rightarrow> (Inr [], tr)
      | (Inr text, tr) \<Rightarrow> (Inr text, tr))"

text \<open>\<^verbatim>\<open>k in text_u\<close>: \<open>k\<close> occurs in the text as a contiguous substring.\<close>

fun contains :: "str \<Rightarrow> str \<Rightarrow> bool" where
  "contains k [] = (k = [])"
| "contains k (c # cs) = (take (length k) (c # cs) = k \<or> contains k cs)"

text \<open>The loop over \<^verbatim>\<open>COMPANY_SHORT_MAP.items()\<close>, in insertion order.\<close>

fun lookup_company :: "(str \<times> str) list \<Rightarrow> str \<Rightarrow> str option" where
  "lookup_company [] text_u = None"
| "lookup_company ((k, v) # kvs) text_u =
     (if contains k text_u then Some v else lookup_company kvs text_u)"

definition is_AZ :: "cp \<Rightarrow> bool" where
  "is_AZ c \<longleftrightarrow> 0x41 \<le> c \<and> c \<le> 0x5A"

text \<open>
  \<^verbatim>\<open>re.findall(r"[A-Z]{3,}", s)\<close>: the maximal runs of \<^verbatim>\<open>A\<close> to \<^verbatim>\<open>Z\<close> of length 3 or
  more, from left to right. The first argument holds the current run, reversed.
\<close>

fun findall_AZ3 :: "str \<Rightarrow> str \<Rightarrow> str list" where
  "findall_AZ3 run [] = (if 3 \<le> length run then [rev run] else [])"
| "findall_AZ3 run (c # cs) =
     (if is_AZ c then findall_AZ3 (c # run) cs
      else if 3 \<le> length run then rev run # findall_AZ3 [] cs
      else findall_AZ3 [] cs)"

definition guess_company :: "unicode_db \<Rightarrow> str \<Rightarrow> str" where
  "guess_company db text =
     (let text_u = clean db text in
      case lookup_company COMPANY_SHORT_MAP text_u of
        Some v \<Rightarrow> v
      | None \<Rightarrow>
          (case findall_AZ3 [] text_u of
             [] \<Rightarrow> lit ''UNKNOWN''
           | word # words \<Rightarrow> word))"

text \<open>\<^verbatim>\<open>s.rsplit(" ", 1)[0]\<close>: what stands before the last space, or all of \<open>s\<close>.\<close>

definition rsplit1_head :: "str \<Rightarrow> str" where
  "rsplit1_head s =
     (if 0x20 \<in> set s then rev (tl (dropWhile (\<lambda>c. c \<noteq> 0x20) (rev s))) else s)"

definition guess_desc :: "unicode_db \<Rightarrow> str \<Rightarrow> str" where
  "guess_desc db text =
     (case map strip (filter (\<lambda>l. 8 < length (strip l)) (splitlines text)) of
        [] \<Rightarrow> lit ''DOCUMENT''
      | l # ls \<Rightarrow>
          (let s = clean db l
           in if MAX_DESC_LEN < length s then rsplit1_head (take MAX_DESC_LEN s) else s))"

text \<open>The name \<^verbatim>\<open>App.scan\<close> builds from the text of one file.\<close>

definition scan_name :: "unicode_db \<Rightarrow> str \<Rightarrow> str" where
  "scan_name db text =
     take MAX_COMPANY_LEN (guess_company db text) @ lit '' - '' @ guess_desc db text @ lit ''.pdf''"

text \<open>
  One round of the loop of \<^verbatim>\<open>App.scan\<close> for the file at \<open>path\<close>: direct extraction, OCR
  when that gave fewer than 50 characters, then the name.
\<close>

definition scan_file :: "unicode_db \<Rightarrow> world \<Rightarrow> str \<Rightarrow> (exn + str) \<times> event list" where
  "scan_file db w path =
     (case extract_text w path of
        (Inl e, tr) \<Rightarrow> (Inl e, tr)
      | (Inr text, tr) \<Rightarrow>
          if length text < 50 then
            (case extract_ocr w path of
               (Inl e, tr') \<Rightarrow> (Inl e, tr @ tr')
             | (Inr text', tr') \<Rightarrow> (Inr (scan_name db text'), tr @ tr'))
          else (Inr (scan_name db text), tr))"

section \<open>Notions of the specification\<close>

text \<open>
  A proposed file name as the specification wants it: not empty, ending in
  \<^verbatim>\<open>.pdf\<close>, without any reserved character.
\<close>

definition valid_name :: "str \<Rightarrow> bool" where
  "valid_name name \<longleftrightarrow>
     name \<noteq> [] \<and> drop (length name - 4) name = lit ''.pdf'' \<and> \<not> list_ex reserved name"

text \<open>
  An internal failure of a reading function on \<open>max_pages\<close> pages: the document
  cannot be opened, or reading one of the pages it would read raises.
\<close>

definition read_fails :: "(pdf_page \<Rightarrow> exn + str) \<Rightarrow> world \<Rightarrow> str \<Rightarrow> nat \<Rightarrow> bool" where
  "read_fails rd w path max_pages =
     (case fitz_open w path of
        Inl e \<Rightarrow> True
      | Inr doc \<Rightarrow> list_ex (\<lambda>page. isl (rd page)) (take (min (length doc) max_pages) doc))"

text \<open>
  The text \<^verbatim>\<open>propose_new_name\<close> computes the name from: the direct text, or what OCR
  gives when the direct text is empty.
\<close>

definition acquired_text :: "world \<Rightarrow> str \<Rightarrow> str" where
  "acquired_text w pdf_path =
     (case fst (extract_text_from_pdf w pdf_path 2) of
        Inl e \<Rightarrow> []
      | Inr s \<Rightarrow>
          if s = [] then (case fst (ocr_first_pages w pdf_path 1) of Inl e \<Rightarrow> [] | Inr s' \<Rightarrow> s')
          else s)"

text \<open>
  The text \<^verbatim>\<open>App.scan\<close> computes the name from: the direct text, or what OCR gives
  when the direct text has fewer than 50 characters.
\<close>

definition scan_text :: "world \<Rightarrow> str \<Rightarrow> str" where
  "scan_text w path =
     (case fst (extract_text w path) of
        Inl e \<Rightarrow> []
      | Inr s \<Rightarrow>
          if length s < 50 then (case fst (extract_ocr w path) of Inl e \<Rightarrow> [] | Inr s' \<Rightarrow> s')
          else s)"

text \<open>
  A company line in the words of the specification: at least 6 alphabetic characters,
  and more alphabetic characters than digits.
\<close>

definition company_like :: "unicode_db \<Rightarrow> str \<Rightarrow> bool" where
  "company_like db ln \<longleftrightarrow>
     6 \<le> length (filter (isalpha db) ln) \<and>
     length (filter (isdigit db) ln) < length (filter (isalpha db) ln)"

text \<open>The first element of a list of lines that satisfies \<open>P\<close>, or the empty string.\<close>

definition first_line :: "(str \<Rightarrow> bool) \<Rightarrow> str list \<Rightarrow> str" where
  "first_line P lns = (case find P lns of None \<Rightarrow> [] | Some ln \<Rightarrow> ln)"

text \<open>
  The company and the description as \<^verbatim>\<open>propose_new_name\<close> puts them in the name:
  \<^verbatim>\<open>company[:60].strip()\<close> and \<^verbatim>\<open>desc[:80].strip()\<close>.
\<close>

definition company_token :: "unicode_db \<Rightarrow> str \<Rightarrow> str" where
  "company_token db text = strip (take 60 (company_of db text))"

definition desc_token :: "unicode_db \<Rightarrow> str \<Rightarrow> str" where
  "desc_token db text = strip (take 80 (desc_of db text))"

text \<open>A string that does not end in whitespace.\<close>

definition no_trailing_space :: "str \<Rightarrow> bool" where
  "no_trailing_space s \<longleftrightarrow> s = [] \<or> \<not> isspace (last s)"

text \<open>
  A string whose only whitespace characters are single spaces, each followed by a
  character that is not whitespace or by the end of the string.
\<close>

fun single_spaced :: "str \<Rightarrow> bool" where
  "single_spaced [] = True"
| "single_spaced [c] = (isspace c \<longrightarrow> c = 0x20)"
| "single_spaced (c # d # cs) = ((isspace c \<longrightarrow> c = 0x20 \<and> \<not> isspace d) \<and> single_spaced (d # cs))"

section \<open>Some documents\<close>

definition invoice_path :: str where
  "invoice_path = lit ''/docs/Invoice123.pdf''"

text \<open>No file can be opened.\<close>

definition missing_world :: world where
  "missing_world = \<lparr> fitz_open = (\<lambda>p. Inl Open_failed) \<rparr>"

text \<open>The file at \<open>invoice_path\<close> is a document of one page.\<close>

definition one_page_world :: "pdf_page \<Rightarrow> world" where
  "one_page_world page =
     \<lparr> fitz_open = (\<lambda>p. if p = invoice_path then Inr [page] else Inl Open_failed) \<rparr>"

text \<open>A scanned page (no embedded text) where the OCR engine is not installed.\<close>

definition scanned_page_no_engine :: pdf_page where
  "scanned_page_no_engine = Page (Inr []) (Inl Ocr_failed)"

text \<open>A page that cannot be loaded.\<close>

definition corrupt_page :: pdf_page where
  "corrupt_page = Page (Inl Page_failed) (Inl Page_failed)"

text \<open>A page with a short embedded text, and an OCR engine that reads more.\<close>

definition short_text_page :: pdf_page where
  "short_text_page = Page (Inr (lit ''Invoice 42'')) (Inr (lit ''ACME Trading Ltd''))"

text \<open>The same bill as a page with embedded text and as a scanned page that OCR reads.\<close>

definition bill_text :: str where
  "bill_text = lit ''TENAGA NASIONAL BERHAD'' @ [0x0A] @ lit ''Monthly Electricity Bill for March 2024''"

definition native_bill_page :: pdf_page where
  "native_bill_page = Page (Inr bill_text) (Inl Ocr_failed)"

definition scanned_bill_page :: pdf_page where
  "scanned_bill_page = Page (Inr []) (Inr bill_text)"

text \<open>A header of digits, a company line and a description line.\<close>

definition bill_with_date :: str where
  "bill_with_date =
     lit ''2024-03-15 00123456'' @ [0x0A] @ lit ''TENAGA NASIONAL'' @ [0x0A] @
     lit ''Monthly Electricity Bill''"

text \<open>A description line of 95 characters, alone and below a company line.\<close>

definition long_line :: str where
  "long_line =
     lit ''Statement of account and outstanding invoices for the quarter ending thirty-first December 2023''"

definition statement_text :: str where
  "statement_text = lit ''ACME Trading Sdn Bhd'' @ [0x0A] @ long_line"

text \<open>A base name of 148 characters.\<close>

definition long_base :: str where
  "long_base =
     lit ''Quarterly consolidated financial statements and supplementary schedules for the fiscal year ended 31 December 2023 with notes and the auditor report''"

section \<open>Strings and sanitizers\<close>

lemma lit_pdf: "lit ''.pdf'' = [0x2E, 0x70, 0x64, 0x66]"
  by (simp add: lit_def)

lemma lit_space: "lit '' '' = [0x20]"
  by (simp add: lit_def)

lemma lit_sep: "lit '' - '' = [0x20, 0x2D, 0x20]"
  by (simp add: lit_def)

lemma set_strip: "set (strip s) \<subseteq> set s"
proof -
  have "set (strip s) \<subseteq> set (rev (dropWhile isspace s))"
    unfolding strip_def by (auto dest: set_dropWhileD)
  also have "\<dots> \<subseteq> set s"
    by (auto dest: set_dropWhileD)
  finally show ?thesis .
qed

lemma set_sub_runs: "set (sub_runs P r s) \<subseteq> set r \<union> {c \<in> set s. \<not> P c}"
  by (induction P r s rule: sub_runs.induct) auto

lemma valid_name_pdf:
  assumes "\<And>c. c \<in> set stem \<Longrightarrow> \<not> reserved c"
  shows "valid_name (stem @ lit ''.pdf'')"
proof -
  have "\<not> list_ex reserved (stem @ lit ''.pdf'')"
    using assms by (auto simp: list_ex_iff lit_pdf reserved_def)
  then show ?thesis
    by (simp add: valid_name_def lit_pdf)
qed

lemma safe_filename_not_reserved:
  assumes "c \<in> set (safe_filename s)"
  shows "\<not> reserved c"
proof -
  from assms set_sub_runs [of isspace "lit '' ''" "map (\<lambda>c. if reserved c then 0x2D else c) (strip s)"]
  have "c = 0x20 \<or> c \<in> set (map (\<lambda>c. if reserved c then 0x2D else c) (strip s))"
    by (auto simp: safe_filename_def lit_space)
  then show ?thesis
    by (auto simp: reserved_def split: if_splits)
qed

lemma propose_name_shape: "\<exists>s. propose_name db text base = safe_filename s @ lit ''.pdf''"
  by (auto simp: propose_name_def Let_def)

lemma propose_name_valid: "valid_name (propose_name db text base)"
proof -
  obtain s where "propose_name db text base = safe_filename s @ lit ''.pdf''"
    using propose_name_shape by blast
  then show ?thesis
    using valid_name_pdf [of "safe_filename s"] safe_filename_not_reserved by simp
qed

lemma clean_not_reserved:
  assumes "c \<in> set (clean db s)"
  shows "\<not> reserved c"
proof -
  let ?a = "sub_runs reserved (lit '' '') (upper db s)"
  have "c \<in> set (sub_runs isspace (lit '' '') ?a)"
    using assms set_strip unfolding clean_def by blast
  then have "c = 0x20 \<or> c \<in> set ?a"
    using set_sub_runs [of isspace "lit '' ''" ?a] by (auto simp: lit_space)
  then have "c = 0x20 \<or> \<not> reserved c"
    using set_sub_runs [of reserved "lit '' ''" "upper db s"] by (auto simp: lit_space)
  then show ?thesis
    by (auto simp: reserved_def)
qed

lemma set_tl_subset: "set (tl xs) \<subseteq> set xs"
  by (cases xs) auto

lemma set_rsplit1_head: "set (rsplit1_head s) \<subseteq> set s"
proof (cases "0x20 \<in> set s")
  case True
  have "set (tl (dropWhile (\<lambda>c. c \<noteq> 0x20) (rev s))) \<subseteq> set (dropWhile (\<lambda>c. c \<noteq> 0x20) (rev s))"
    by (rule set_tl_subset)
  also have "\<dots> \<subseteq> set s"
    by (auto dest: set_dropWhileD)
  finally show ?thesis
    using True by (simp add: rsplit1_head_def)
next
  case False
  then show ?thesis by (simp add: rsplit1_head_def)
qed

lemma lit_DOCUMENT: "lit ''DOCUMENT'' = [0x44, 0x4F, 0x43, 0x55, 0x4D, 0x45, 0x4E, 0x54]"
  by (simp add: lit_def)

lemma lit_UNKNOWN: "lit ''UNKNOWN'' = [0x55, 0x4E, 0x4B, 0x4E, 0x4F, 0x57, 0x4E]"
  by (simp add: lit_def)

lemma guess_desc_not_reserved:
  assumes "c \<in> set (guess_desc db text)"
  shows "\<not> reserved c"
proof (cases "map strip (filter (\<lambda>l. 8 < length (strip l)) (splitlines text))")
  case Nil
  then have "c \<in> set (lit ''DOCUMENT'')"
    using assms by (simp add: guess_desc_def)
  then show ?thesis
    by (auto simp: lit_DOCUMENT reserved_def)
next
  case (Cons l ls)
  then have "c \<in> set (rsplit1_head (take MAX_DESC_LEN (clean db l))) \<or> c \<in> set (clean db l)"
    using assms by (auto simp: guess_desc_def Let_def split: if_splits)
  then have "c \<in> set (clean db l)"
    using set_rsplit1_head set_take_subset by fastforce
  then show ?thesis
    by (rule clean_not_reserved)
qed

lemma findall_AZ3_words:
  "word \<in> set (findall_AZ3 run s) \<Longrightarrow> list_all is_AZ run \<Longrightarrow> list_all is_AZ word \<and> 3 \<le> length word"
proof (induction s arbitrary: run)
  case Nil
  then have "word = rev run \<and> 3 \<le> length run"
    by (simp split: if_splits)
  with Nil show ?case by simp
next
  case (Cons c cs)
  show ?case
  proof (cases "is_AZ c")
    case True
    then have "word \<in> set (findall_AZ3 (c # run) cs)"
      using Cons.prems(1) by simp
    moreover have "list_all is_AZ (c # run)"
      using True Cons.prems(2) by simp
    ultimately show ?thesis
      by (rule Cons.IH)
  next
    case False
    have nil: "list_all is_AZ []" by simp
    show ?thesis
    proof (cases "3 \<le> length run")
      case True
      then have "word = rev run \<or> word \<in> set (findall_AZ3 [] cs)"
        using False Cons.prems(1) by simp
      then show ?thesis
      proof
        assume "word = rev run"
        then show ?thesis using True Cons.prems(2) by simp
      next
        assume "word \<in> set (findall_AZ3 [] cs)"
        then show ?thesis using nil by (rule Cons.IH)
      qed
    next
      case short: False
      then have "word \<in> set (findall_AZ3 [] cs)"
        using False Cons.prems(1) by simp
      then show ?thesis using nil by (rule Cons.IH)
    qed
  qed
qed

lemma is_AZ_not_reserved: "is_AZ c \<Longrightarrow> \<not> reserved c"
  by (auto simp: is_AZ_def reserved_def)

lemma lookup_company_in_values:
  "lookup_company kvs t = Some v \<Longrightarrow> v \<in> snd ` set kvs"
  by (induction kvs t rule: lookup_company.induct) (auto split: if_splits)

lemma COMPANY_SHORT_MAP_values:
  assumes "v \<in> snd ` set COMPANY_SHORT_MAP"
  shows "list_all is_AZ v \<and> v \<noteq> []"
  using assms by (auto simp: COMPANY_SHORT_MAP_def lit_def is_AZ_def)

lemma guess_company_AZ: "list_all is_AZ (guess_company db txt) \<and> guess_company db txt \<noteq> []"
proof (cases "lookup_company COMPANY_SHORT_MAP (clean db txt)")
  case (Some v)
  then have "v \<in> snd ` set COMPANY_SHORT_MAP"
    by (rule lookup_company_in_values)
  then have "list_all is_AZ v \<and> v \<noteq> []"
    by (rule COMPANY_SHORT_MAP_values)
  then show ?thesis
    using Some by (simp add: guess_company_def)
next
  case None
  show ?thesis
  proof (cases "findall_AZ3 [] (clean db txt)")
    case Nil
    with None show ?thesis
      by (simp add: guess_company_def lit_UNKNOWN is_AZ_def)
  next
    case (Cons word words)
    then have "word \<in> set (findall_AZ3 [] (clean db txt))" by simp
    moreover have "list_all is_AZ []" by simp
    ultimately have "list_all is_AZ word \<and> 3 \<le> length word"
      by (rule findall_AZ3_words)
    then have "list_all is_AZ word \<and> word \<noteq> []"
      by auto
    then show ?thesis
      using None Cons by (simp add: guess_company_def)
  qed
qed

lemma scan_name_valid: "valid_name (scan_name db txt)"
proof -
  let ?stem = "take MAX_COMPANY_LEN (guess_company db txt) @ lit '' - '' @ guess_desc db txt"
  have "\<not> reserved c" if "c \<in> set ?stem" for c
  proof -
    from that consider
      (company) "c \<in> set (take MAX_COMPANY_LEN (guess_company db txt))" |
      (sep) "c \<in> set (lit '' - '')" |
      (desc) "c \<in> set (guess_desc db txt)"
      by auto
    then show ?thesis
    proof cases
      case company
      then have "c \<in> set (guess_company db txt)"
        by (rule in_set_takeD)
      then have "is_AZ c"
        using guess_company_AZ [of db "txt"] by (simp add: list_all_iff)
      then show ?thesis
        by (rule is_AZ_not_reserved)
    next
      case sep
      then show ?thesis
        by (auto simp: lit_sep reserved_def)
    next
      case desc
      then show ?thesis
        by (rule guess_desc_not_reserved)
    qed
  qed
  then have "valid_name (?stem @ lit ''.pdf'')"
    by (rule valid_name_pdf)
  then show ?thesis
    by (simp add: scan_name_def)
qed

lemma extract_text_from_pdf_returns: "\<exists>s tr. extract_text_from_pdf w p n = (Inr s, tr)"
  by (auto simp: extract_text_from_pdf_def split: prod.splits sum.splits)

lemma ocr_first_pages_returns: "\<exists>s tr. ocr_first_pages w p n = (Inr s, tr)"
  by (auto simp: ocr_first_pages_def split: prod.splits sum.splits)

lemma extract_text_returns: "\<exists>s tr. extract_text w p = (Inr s, tr)"
  by (auto simp: extract_text_def split: prod.splits sum.splits)

lemma extract_ocr_returns: "\<exists>s tr. extract_ocr w p = (Inr s, tr)"
  by (auto simp: extract_ocr_def split: prod.splits sum.splits)

lemma extract_text_from_pdf_not_Inl: "extract_text_from_pdf w p n \<noteq> (Inl e, tr)"
  using extract_text_from_pdf_returns [of w p n] by auto

lemma ocr_first_pages_not_Inl: "ocr_first_pages w p n \<noteq> (Inl e, tr)"
  using ocr_first_pages_returns [of w p n] by auto

lemma extract_text_not_Inl: "extract_text w p \<noteq> (Inl e, tr)"
  using extract_text_returns [of w p] by auto

lemma extract_ocr_not_Inl: "extract_ocr w p \<noteq> (Inl e, tr)"
  using extract_ocr_returns [of w p] by auto

lemma propose_new_name_returns:
  "\<exists>txt tr. propose_new_name db w p = (Inr (propose_name db txt (splitext_root (basename p))), tr)"
  by (auto simp: propose_new_name_def Let_def extract_text_from_pdf_not_Inl ocr_first_pages_not_Inl
      split: prod.splits sum.splits)

lemma scan_file_returns: "\<exists>txt tr. scan_file db w p = (Inr (scan_name db txt), tr)"
  by (auto simp: scan_file_def extract_text_not_Inl extract_ocr_not_Inl
      split: prod.splits sum.splits)

section \<open>Every proposed name is a valid file name\<close>

text \<open>
  C1: for every text and base name, and for every document, the proposed name of
  either variant is not empty, ends in \<^verbatim>\<open>.pdf\<close> and holds no reserved character:
  for the name computed from a text (\<open>propose_name\<close>, \<open>scan_name\<close>) and for the whole
  operation on a path (\<open>propose_new_name\<close>, \<open>scan_file\<close>), which always returns a name.
\<close>

theorem C1_names_valid:
  "valid_name (propose_name db txt base) \<and> valid_name (scan_name db txt) \<and>
   (\<exists>name tr. propose_new_name db w path = (Inr name, tr) \<and> valid_name name) \<and>
   (\<exists>name tr. scan_file db w path = (Inr name, tr) \<and> valid_name name)"
proof -
  obtain t1 tr1 where
    "propose_new_name db w path = (Inr (propose_name db t1 (splitext_root (basename path))), tr1)"
    using propose_new_name_returns by blast
  then have a: "\<exists>name tr. propose_new_name db w path = (Inr name, tr) \<and> valid_name name"
    using propose_name_valid by blast
  obtain t2 tr2 where "scan_file db w path = (Inr (scan_name db t2), tr2)"
    using scan_file_returns by blast
  then have b: "\<exists>name tr. scan_file db w path = (Inr name, tr) \<and> valid_name name"
    using scan_name_valid by blast
  show ?thesis
    using a b propose_name_valid scan_name_valid by simp
qed

section \<open>Lemmas on text acquisition\<close>

lemma collect_chunks_fails:
  "list_ex (\<lambda>page. isl (rd page)) pages \<Longrightarrow> \<exists>e. collect_chunks rd pages chunks = Inl e"
proof (induction pages arbitrary: chunks)
  case Nil
  then show ?case by simp
next
  case (Cons page pages)
  show ?case
  proof (cases "rd page")
    case (Inl e)
    then show ?thesis by simp
  next
    case (Inr t)
    then have "list_ex (\<lambda>page. isl (rd page)) pages"
      using Cons.prems by simp
    then obtain e where "collect_chunks rd pages (if strip t \<noteq> [] then chunks @ [t] else chunks) = Inl e"
      using Cons.IH by blast
    then show ?thesis
      using Inr by simp
  qed
qed

lemma concat_pages_fails:
  "list_ex (\<lambda>page. isl (rd page)) pages \<Longrightarrow> \<exists>e. concat_pages rd pages acc = Inl e"
proof (induction pages arbitrary: acc)
  case Nil
  then show ?case by simp
next
  case (Cons page pages)
  show ?case
  proof (cases "rd page")
    case (Inl e)
    then show ?thesis by simp
  next
    case (Inr t)
    then have "list_ex (\<lambda>page. isl (rd page)) pages"
      using Cons.prems by simp
    then obtain e where "concat_pages rd pages (acc @ t) = Inl e"
      using Cons.IH by blast
    then show ?thesis
      using Inr by simp
  qed
qed

lemma extract_text_from_pdf_try_fails:
  assumes "read_fails get_text w p n"
  shows "\<exists>e tr. extract_text_from_pdf_try w p n = (Inl e, tr)"
proof (cases "fitz_open w p")
  case (Inl e)
  then show ?thesis by (simp add: extract_text_from_pdf_try_def)
next
  case (Inr doc)
  then have "list_ex (\<lambda>page. isl (get_text page)) (take (min (length doc) n) doc)"
    using assms by (simp add: read_fails_def)
  then obtain e where "collect_chunks get_text (take (min (length doc) n) doc) [] = Inl e"
    using collect_chunks_fails by blast
  then show ?thesis
    using Inr by (simp add: extract_text_from_pdf_try_def)
qed

lemma ocr_first_pages_try_fails:
  assumes "read_fails ocr_text w p n"
  shows "\<exists>e tr. ocr_first_pages_try w p n = (Inl e, tr)"
proof (cases "fitz_open w p")
  case (Inl e)
  then show ?thesis by (simp add: ocr_first_pages_try_def)
next
  case (Inr doc)
  then have "list_ex (\<lambda>page. isl (ocr_text page)) (take (min (length doc) n) doc)"
    using assms by (simp add: read_fails_def)
  then obtain e where "collect_chunks ocr_text (take (min (length doc) n) doc) [] = Inl e"
    using collect_chunks_fails by blast
  then show ?thesis
    using Inr by (simp add: ocr_first_pages_try_def)
qed

lemma extract_text_try_fails:
  assumes "read_fails get_text w p 2"
  shows "\<exists>e tr. extract_text_try w p = (Inl e, tr)"
proof (cases "fitz_open w p")
  case (Inl e)
  then show ?thesis by (simp add: extract_text_try_def)
next
  case (Inr doc)
  then have "list_ex (\<lambda>page. isl (get_text page)) (take (min 2 (length doc)) doc)"
    using assms by (simp add: read_fails_def min.commute)
  then obtain e where "concat_pages get_text (take (min 2 (length doc)) doc) [] = Inl e"
    using concat_pages_fails by blast
  then show ?thesis
    using Inr by (simp add: extract_text_try_def)
qed

lemma extract_ocr_try_fails:
  assumes "read_fails ocr_text w p 2"
  shows "\<exists>e tr. extract_ocr_try w p = (Inl e, tr)"
proof (cases "fitz_open w p")
  case (Inl e)
  then show ?thesis by (simp add: extract_ocr_try_def)
next
  case (Inr doc)
  then have "list_ex (\<lambda>page. isl (ocr_text page)) (take (min 2 (length doc)) doc)"
    using assms by (simp add: read_fails_def min.commute)
  then obtain e where "concat_pages ocr_text (take (min 2 (length doc)) doc) [] = Inl e"
    using concat_pages_fails by blast
  then show ?thesis
    using Inr by (simp add: extract_ocr_try_def)
qed

text \<open>
  C2: the four acquisition functions (\<open>extract_text_from_pdf\<close>, \<open>ocr_first_pages\<close>,
  \<open>extract_text\<close>, \<open>extract_ocr\<close>) return a string for every world and path, never
  an exception; and when the document cannot be opened or a page that is read raises,
  the string returned is empty.
\<close>

theorem C2_acquisition_never_raises:
  "(\<exists>s tr. extract_text_from_pdf w p n = (Inr s, tr)) \<and>
   (\<exists>s tr. ocr_first_pages w p n = (Inr s, tr)) \<and>
   (\<exists>s tr. extract_text w p = (Inr s, tr)) \<and>
   (\<exists>s tr. extract_ocr w p = (Inr s, tr)) \<and>
   (read_fails get_text w p n \<longrightarrow> fst (extract_text_from_pdf w p n) = Inr []) \<and>
   (read_fails ocr_text w p n \<longrightarrow> fst (ocr_first_pages w p n) = Inr []) \<and>
   (read_fails get_text w p 2 \<longrightarrow> fst (extract_text w p) = Inr []) \<and>
   (read_fails ocr_text w p 2 \<longrightarrow> fst (extract_ocr w p) = Inr [])"
proof -
  have a: "fst (extract_text_from_pdf w p n) = Inr []" if "read_fails get_text w p n"
    using extract_text_from_pdf_try_fails [OF that] by (auto simp: extract_text_from_pdf_def)
  have b: "fst (ocr_first_pages w p n) = Inr []" if "read_fails ocr_text w p n"
    using ocr_first_pages_try_fails [OF that] by (auto simp: ocr_first_pages_def)
  have c: "fst (extract_text w p) = Inr []" if "read_fails get_text w p 2"
    using extract_text_try_fails [OF that] by (auto simp: extract_text_def)
  have d: "fst (extract_ocr w p) = Inr []" if "read_fails ocr_text w p 2"
    using extract_ocr_try_fails [OF that] by (auto simp: extract_ocr_def)
  show ?thesis
    using a b c d extract_text_from_pdf_returns [of w p n] ocr_first_pages_returns [of w p n]
      extract_text_returns [of w p] extract_ocr_returns [of w p]
    by simp
qed

lemma missing_world_fails: "read_fails rd missing_world p n"
  by (simp add: read_fails_def missing_world_def)

theorem C2_witness:
  "read_fails get_text missing_world invoice_path 2 \<and>
   read_fails ocr_text missing_world invoice_path 2 \<and>
   fst (extract_text_from_pdf missing_world invoice_path 2) = Inr [] \<and>
   fst (ocr_first_pages missing_world invoice_path 2) = Inr [] \<and>
   fst (extract_text missing_world invoice_path) = Inr [] \<and>
   fst (extract_ocr missing_world invoice_path) = Inr []"
  using C2_acquisition_never_raises [of missing_world invoice_path 2] missing_world_fails
  by simp

lemmas world_defs = one_page_world_def missing_world_def scanned_page_no_engine_def
  corrupt_page_def short_text_page_def native_bill_page_def scanned_bill_page_def

lemmas acquisition_defs = extract_text_from_pdf_def extract_text_from_pdf_try_def
  ocr_first_pages_def ocr_first_pages_try_def extract_text_def extract_text_try_def
  extract_ocr_def extract_ocr_try_def

lemmas string_defs = lit_def strip_def isspace_def linebreak_def reserved_def splitlines_def

lemma extract_text_from_pdf_no_ocr_event: "Call_ocr q \<notin> set (snd (extract_text_from_pdf w p n))"
  by (auto simp: extract_text_from_pdf_def extract_text_from_pdf_try_def split: sum.splits)

lemma extract_text_no_ocr_event: "Call_ocr q \<notin> set (snd (extract_text w p))"
  by (auto simp: extract_text_def extract_text_try_def split: sum.splits)

lemma ocr_first_pages_event: "Call_ocr p \<in> set (snd (ocr_first_pages w p n))"
  by (auto simp: ocr_first_pages_def ocr_first_pages_try_def split: sum.splits)

lemma extract_ocr_event: "Call_ocr p \<in> set (snd (extract_ocr w p))"
  by (auto simp: extract_ocr_def extract_ocr_try_def split: sum.splits)

lemma propose_new_name_trace:
  assumes "extract_text_from_pdf w p 2 = (Inr s, tr)"
  shows "snd (propose_new_name db w p) = (if s = [] then tr @ snd (ocr_first_pages w p 1) else tr)"
proof -
  obtain s' tr' where "ocr_first_pages w p 1 = (Inr s', tr')"
    using ocr_first_pages_returns by blast
  then show ?thesis
    using assms by (simp add: propose_new_name_def)
qed

lemma scan_file_trace:
  assumes "extract_text w p = (Inr s, tr)"
  shows "snd (scan_file db w p) = (if length s < 50 then tr @ snd (extract_ocr w p) else tr)"
proof -
  obtain s' tr' where "extract_ocr w p = (Inr s', tr')"
    using extract_ocr_returns by blast
  then show ?thesis
    using assms by (simp add: scan_file_def)
qed

section \<open>When the OCR fallback runs\<close>

text \<open>
  C4 (amended): with \<open>s1\<close> the text direct extraction gives in the case-preserving
  variant and \<open>s2\<close> the one it gives in the upper-case variant, \<^verbatim>\<open>propose_new_name\<close>
  enters the OCR fallback exactly when \<open>s1\<close> is empty, and the scan step exactly when
  \<open>s2\<close> has fewer than 50 characters; in both, a direct text of 50 characters or more
  means that OCR is not entered.
\<close>

theorem C4_ocr_fallback:
  assumes "extract_text_from_pdf w path 2 = (Inr s1, tr1)"
    and "extract_text w path = (Inr s2, tr2)"
  shows "(Call_ocr path \<in> set (snd (propose_new_name db w path)) \<longleftrightarrow> s1 = []) \<and>
         (Call_ocr path \<in> set (snd (scan_file db w path)) \<longleftrightarrow> length s2 < 50) \<and>
         (50 \<le> length s1 \<longrightarrow> Call_ocr path \<notin> set (snd (propose_new_name db w path))) \<and>
         (50 \<le> length s2 \<longrightarrow> Call_ocr path \<notin> set (snd (scan_file db w path)))"
proof -
  have n1: "Call_ocr path \<notin> set tr1"
    using extract_text_from_pdf_no_ocr_event [of path w path 2] assms(1) by simp
  have n2: "Call_ocr path \<notin> set tr2"
    using extract_text_no_ocr_event [of path w path] assms(2) by simp
  have a: "Call_ocr path \<in> set (snd (propose_new_name db w path)) \<longleftrightarrow> s1 = []"
    using propose_new_name_trace [OF assms(1), of db] n1 ocr_first_pages_event [of path w 1]
    by simp
  have b: "Call_ocr path \<in> set (snd (scan_file db w path)) \<longleftrightarrow> length s2 < 50"
    using scan_file_trace [OF assms(2), of db] n2 extract_ocr_event [of path w]
    by simp
  show ?thesis
    using a b by auto
qed

lemma short_text_direct:
  "extract_text_from_pdf (one_page_world short_text_page) invoice_path 2 =
     (Inr (lit ''Invoice 42''), [Doc_open invoice_path, Doc_close invoice_path])"
  by (simp add: world_defs acquisition_defs string_defs)

lemma short_text_direct2:
  "extract_text (one_page_world short_text_page) invoice_path =
     (Inr (lit ''Invoice 42''), [Doc_open invoice_path, Doc_close invoice_path])"
  by (simp add: world_defs acquisition_defs string_defs)

text \<open>A page with the embedded text \<^verbatim>\<open>Invoice 42\<close>: OCR runs in the scan step only.\<close>

theorem C4_witness:
  "extract_text_from_pdf (one_page_world short_text_page) invoice_path 2 =
     (Inr (lit ''Invoice 42''), [Doc_open invoice_path, Doc_close invoice_path]) \<and>
   extract_text (one_page_world short_text_page) invoice_path =
     (Inr (lit ''Invoice 42''), [Doc_open invoice_path, Doc_close invoice_path]) \<and>
   Call_ocr invoice_path \<notin> set (snd (propose_new_name ascii_db (one_page_world short_text_page) invoice_path)) \<and>
   Call_ocr invoice_path \<in> set (snd (scan_file ascii_db (one_page_world short_text_page) invoice_path))"
  using C4_ocr_fallback [OF short_text_direct short_text_direct2, of ascii_db]
    short_text_direct short_text_direct2
  by (simp add: lit_def)

text \<open>
  C4 as stated fails in the case-preserving variant: a direct text of 10 characters is
  shorter than 50, and \<^verbatim>\<open>propose_new_name\<close> does not enter the OCR fallback.
\<close>

theorem C4_counterexample:
  "fst (extract_text_from_pdf (one_page_world short_text_page) invoice_path 2) = Inr (lit ''Invoice 42'') \<and>
   length (lit ''Invoice 42'') < 50 \<and>
   Call_ocr invoice_path \<notin> set (snd (propose_new_name ascii_db (one_page_world short_text_page) invoice_path))"
  by (simp add: propose_new_name_def short_text_direct lit_def)

section \<open>Document handles\<close>

text \<open>
  C8: the claim is that every handle that is opened is closed before the operation
  returns, also when reading fails partway. In each of the four functions
  \<^verbatim>\<open>doc.close()\<close> is the last statement of the \<^verbatim>\<open>try\<close> block, so it is skipped when a
  page raises: for a document whose page cannot be read, and for a scanned page when the
  OCR engine is missing, the handle stays open when the function returns.
\<close>

theorem C8_handle_left_open:
  "open_handles (snd (extract_text_from_pdf (one_page_world corrupt_page) invoice_path 2)) [] = [invoice_path] \<and>
   open_handles (snd (ocr_first_pages (one_page_world scanned_page_no_engine) invoice_path 1)) [] = [invoice_path] \<and>
   open_handles (snd (extract_text (one_page_world corrupt_page) invoice_path)) [] = [invoice_path] \<and>
   open_handles (snd (extract_ocr (one_page_world scanned_page_no_engine) invoice_path)) [] = [invoice_path]"
  by (simp add: world_defs acquisition_defs)

section \<open>The name depends on the text and the base name only\<close>

lemma propose_new_name_eq:
  "fst (propose_new_name db w p) = Inr (propose_name db (acquired_text w p) (splitext_root (basename p)))"
proof -
  obtain s tr where e: "extract_text_from_pdf w p 2 = (Inr s, tr)"
    using extract_text_from_pdf_returns by blast
  obtain s' tr' where o: "ocr_first_pages w p 1 = (Inr s', tr')"
    using ocr_first_pages_returns by blast
  show ?thesis
    using e o by (simp add: propose_new_name_def acquired_text_def)
qed

lemma scan_file_eq: "fst (scan_file db w p) = Inr (scan_name db (scan_text w p))"
proof -
  obtain s tr where e: "extract_text w p = (Inr s, tr)"
    using extract_text_returns by blast
  obtain s' tr' where o: "extract_ocr w p = (Inr s', tr')"
    using extract_ocr_returns by blast
  show ?thesis
    using e o by (simp add: scan_file_def scan_text_def)
qed

text \<open>
  C9: two runs, on any two worlds and paths, that acquire the same text (and, in the
  case-preserving variant, have the same base name) propose the same name: the name is
  a function of the text, the base name and the fixed tables only.
\<close>

theorem C9_deterministic:
  "(acquired_text w p = acquired_text w' p' \<and> splitext_root (basename p) = splitext_root (basename p') \<longrightarrow>
      fst (propose_new_name db w p) = fst (propose_new_name db w' p')) \<and>
   (scan_text w p = scan_text w' p' \<longrightarrow> fst (scan_file db w p) = fst (scan_file db w' p'))"
  by (simp add: propose_new_name_eq scan_file_eq)

lemma strip_Nil: "strip [] = []"
  by (simp add: strip_def)

lemma bill_text_stripped: "strip bill_text = bill_text"
  by (simp add: bill_text_def string_defs)

lemma bill_text_length: "length bill_text = 62"
  by (simp add: bill_text_def lit_def)

lemma acquired_bill:
  "acquired_text (one_page_world native_bill_page) invoice_path = bill_text \<and>
   acquired_text (one_page_world scanned_bill_page) invoice_path = bill_text \<and>
   scan_text (one_page_world native_bill_page) invoice_path = bill_text \<and>
   scan_text (one_page_world scanned_bill_page) invoice_path = bill_text"
proof -
  have ne: "bill_text \<noteq> []"
    using bill_text_length by auto
  show ?thesis
    using ne
    by (simp add: acquired_text_def scan_text_def world_defs acquisition_defs
        bill_text_stripped bill_text_length strip_Nil)
qed

text \<open>The same bill once with embedded text and once scanned and read by OCR.\<close>

theorem C9_witness:
  "acquired_text (one_page_world native_bill_page) invoice_path =
     acquired_text (one_page_world scanned_bill_page) invoice_path \<and>
   scan_text (one_page_world native_bill_page) invoice_path =
     scan_text (one_page_world scanned_bill_page) invoice_path \<and>
   fst (propose_new_name ascii_db (one_page_world native_bill_page) invoice_path) =
     fst (propose_new_name ascii_db (one_page_world scanned_bill_page) invoice_path) \<and>
   fst (scan_file ascii_db (one_page_world native_bill_page) invoice_path) =
     fst (scan_file ascii_db (one_page_world scanned_bill_page) invoice_path)"
  using C9_deterministic [of "one_page_world native_bill_page" invoice_path
      "one_page_world scanned_bill_page" invoice_path ascii_db] acquired_bill
  by simp

lemmas heuristic_defs = propose_name_def company_of_def desc_of_def retained_lines_def
  safe_filename_def scan_name_def guess_company_def guess_desc_def clean_def
  COMPANY_SHORT_MAP_def MAX_COMPANY_LEN_def MAX_DESC_LEN_def rsplit1_head_def is_AZ_def
  ascii_db_def basename_def splitext_root_def invoice_path_def

section \<open>The fallback name\<close>

lemma invoice_stem: "splitext_root (basename invoice_path) = lit ''Invoice123''"
  by (simp add: invoice_path_def basename_def splitext_root_def lit_def)

lemma safe_filename_invoice: "safe_filename (lit ''Invoice123'') = lit ''Invoice123''"
  by (simp add: safe_filename_def string_defs)

lemma acquired_text_missing: "acquired_text missing_world p = []"
  by (simp add: acquired_text_def world_defs acquisition_defs)

lemma scan_text_missing: "scan_text missing_world p = []"
  by (simp add: scan_text_def world_defs acquisition_defs)

text \<open>
  C3 (amended): in the case-preserving variant an empty text gives the sanitized base
  name followed by \<^verbatim>\<open>.pdf\<close> and nothing else, for the function of the text and for the
  whole operation on a document without text; the base name \<^verbatim>\<open>Invoice123\<close> gives
  \<^verbatim>\<open>Invoice123.pdf\<close>.
\<close>

theorem C3_empty_text:
  "propose_name db [] base = safe_filename base @ lit ''.pdf'' \<and>
   propose_name db [] (lit ''Invoice123'') = lit ''Invoice123.pdf'' \<and>
   (acquired_text w p = [] \<longrightarrow>
      fst (propose_new_name db w p) = Inr (safe_filename (splitext_root (basename p)) @ lit ''.pdf''))"
proof -
  have a: "propose_name db [] base = safe_filename base @ lit ''.pdf''" for base
    by (simp add: propose_name_def)
  have b: "propose_name db [] (lit ''Invoice123'') = lit ''Invoice123.pdf''"
    by (simp add: a safe_filename_invoice) (simp add: lit_def)
  show ?thesis
    using a b by (simp add: propose_new_name_eq)
qed

theorem C3_witness:
  "acquired_text missing_world invoice_path = [] \<and>
   fst (propose_new_name ascii_db missing_world invoice_path) = Inr (lit ''Invoice123.pdf'')"
proof -
  have "fst (propose_new_name ascii_db missing_world invoice_path) =
      Inr (safe_filename (splitext_root (basename invoice_path)) @ lit ''.pdf'')"
    using C3_empty_text [of ascii_db "[]" missing_world invoice_path] acquired_text_missing
    by simp
  then show ?thesis
    by (simp add: acquired_text_missing invoice_stem safe_filename_invoice) (simp add: lit_def)
qed

text \<open>
  C3 as stated fails in the upper-case variant: for the file \<^verbatim>\<open>Invoice123.pdf\<close> without
  any text the scan step proposes \<^verbatim>\<open>UNKNOWN - DOCUMENT.pdf\<close>, which is not the base name
  sanitized by either sanitizer.
\<close>

theorem C3_counterexample:
  "scan_text missing_world invoice_path = [] \<and>
   fst (scan_file ascii_db missing_world invoice_path) = Inr (lit ''UNKNOWN - DOCUMENT.pdf'') \<and>
   lit ''UNKNOWN - DOCUMENT.pdf'' \<noteq> safe_filename (lit ''Invoice123'') @ lit ''.pdf'' \<and>
   lit ''UNKNOWN - DOCUMENT.pdf'' \<noteq> clean ascii_db (lit ''Invoice123'') @ lit ''.pdf''"
proof -
  have a: "scan_name ascii_db [] = lit ''UNKNOWN - DOCUMENT.pdf''"
    by (simp add: heuristic_defs string_defs)
  have b: "clean ascii_db (lit ''Invoice123'') = lit ''INVOICE123''"
    by (simp add: heuristic_defs string_defs)
  show ?thesis
    by (simp add: scan_file_eq scan_text_missing a b safe_filename_invoice) (simp add: lit_def)
qed

section \<open>The company line\<close>

lemma company_loop_first_line: "company_loop db lns = first_line (company_like db) lns"
  by (induction lns) (simp_all add: first_line_def company_like_def Let_def)

lemma first_line_satisfies:
  assumes "first_line P lns \<noteq> []"
  shows "P (first_line P lns)"
proof (cases "find P lns")
  case None
  then show ?thesis using assms by (simp add: first_line_def)
next
  case (Some ln)
  then have "P ln"
    by (auto simp: find_Some_iff)
  then show ?thesis using Some by (simp add: first_line_def)
qed

text \<open>
  C5: the company is the first of the first 30 retained lines that has at least 6
  alphabetic characters and more alphabetic characters than digits, and the empty string
  when there is none; so no line with at least as many digits as alphabetic characters
  is ever the company.
\<close>

theorem C5_company_line:
  "company_of db txt = first_line (company_like db) (take 30 (retained_lines txt)) \<and>
   (\<forall>ln. ln \<noteq> [] \<and> length (filter (isalpha db) ln) \<le> length (filter (isdigit db) ln) \<longrightarrow>
      company_of db txt \<noteq> ln)"
proof -
  have eq: "company_of db txt = first_line (company_like db) (take 30 (retained_lines txt))"
    by (simp add: company_of_def company_loop_first_line)
  have "company_of db txt \<noteq> ln"
    if "ln \<noteq> []" and "length (filter (isalpha db) ln) \<le> length (filter (isdigit db) ln)" for ln
  proof
    assume c: "company_of db txt = ln"
    then have "first_line (company_like db) (take 30 (retained_lines txt)) \<noteq> []"
      using eq that(1) by simp
    then have "company_like db (first_line (company_like db) (take 30 (retained_lines txt)))"
      by (rule first_line_satisfies)
    then have "company_like db ln"
      using eq c by simp
    then show False
      using that(2) by (simp add: company_like_def)
  qed
  then show ?thesis
    using eq by blast
qed

lemma bill_with_date_lines:
  "retained_lines bill_with_date =
     [lit ''2024-03-15 00123456'', lit ''TENAGA NASIONAL'', lit ''Monthly Electricity Bill'']"
  by (simp add: bill_with_date_def retained_lines_def string_defs)

lemma bill_with_date_company: "company_of ascii_db bill_with_date = lit ''TENAGA NASIONAL''"
  by (simp add: company_of_def bill_with_date_lines) (simp add: ascii_db_def lit_def)

theorem C5_witness:
  "lit ''2024-03-15 00123456'' \<noteq> [] \<and>
   length (filter (isalpha ascii_db) (lit ''2024-03-15 00123456'')) \<le>
     length (filter (isdigit ascii_db) (lit ''2024-03-15 00123456'')) \<and>
   company_of ascii_db bill_with_date \<noteq> lit ''2024-03-15 00123456'' \<and>
   company_of ascii_db bill_with_date =
     first_line (company_like ascii_db) (take 30 (retained_lines bill_with_date)) \<and>
   company_of ascii_db bill_with_date = lit ''TENAGA NASIONAL''"
proof -
  have a: "lit ''2024-03-15 00123456'' \<noteq> [] \<and>
      length (filter (isalpha ascii_db) (lit ''2024-03-15 00123456'')) \<le>
        length (filter (isdigit ascii_db) (lit ''2024-03-15 00123456''))"
    by (simp add: ascii_db_def lit_def)
  show ?thesis
    using C5_company_line [of ascii_db bill_with_date] a bill_with_date_company by blast
qed

section \<open>The description line\<close>

lemma desc_loop_first_line:
  assumes "\<forall>ln \<in> set lns. ln \<noteq> []"
  shows "desc_loop company lns = first_line (\<lambda>ln. 6 \<le> length ln \<and> ln \<noteq> company) lns"
  using assms by (induction lns) (auto simp: first_line_def)

lemma retained_lines_nonempty: "\<forall>ln \<in> set (retained_lines txt). ln \<noteq> []"
  by (auto simp: retained_lines_def)

text \<open>
  C6 (amended): in the case-preserving variant the description is the first of the first
  60 retained lines that has length at least 6 and differs from the company, and the
  empty string when there is none.
\<close>

theorem C6_description_line:
  "desc_of db txt =
     first_line (\<lambda>ln. 6 \<le> length ln \<and> ln \<noteq> company_of db txt) (take 60 (retained_lines txt))"
proof -
  have "\<forall>ln \<in> set (take 60 (retained_lines txt)). ln \<noteq> []"
    using retained_lines_nonempty by (auto dest: in_set_takeD)
  then show ?thesis
    unfolding desc_of_def by (rule desc_loop_first_line)
qed

theorem C6_witness:
  "desc_of ascii_db bill_with_date = lit ''2024-03-15 00123456''"
  using C6_description_line [of ascii_db bill_with_date]
  by (simp add: bill_with_date_company bill_with_date_lines first_line_def) (simp add: lit_def)

text \<open>
  C6 as stated fails in the upper-case variant: the text \<^verbatim>\<open>Bill 042\<close> is one retained line
  of length 8, not the company (\<^verbatim>\<open>BILL\<close>), and the description is \<^verbatim>\<open>DOCUMENT\<close>.
\<close>

theorem C6_counterexample:
  "retained_lines (lit ''Bill 042'') = [lit ''Bill 042''] \<and>
   6 \<le> length (lit ''Bill 042'') \<and>
   guess_company ascii_db (lit ''Bill 042'') = lit ''BILL'' \<and>
   guess_desc ascii_db (lit ''Bill 042'') = lit ''DOCUMENT''"
  by (simp add: heuristic_defs string_defs)

section \<open>Lengths\<close>

lemma length_strip: "length (strip s) \<le> length s"
proof -
  have "length (strip s) \<le> length (dropWhile isspace s)"
    unfolding strip_def using length_dropWhile_le [of isspace "rev (dropWhile isspace s)"] by simp
  also have "\<dots> \<le> length s"
    by (rule length_dropWhile_le)
  finally show ?thesis .
qed

lemma length_sub_runs: "length r \<le> 1 \<Longrightarrow> length (sub_runs P r s) \<le> length s"
proof (induction P r s rule: sub_runs.induct)
  case (1 P r)
  then show ?case by simp
next
  case (2 P r c)
  then show ?case by simp
next
  case (3 P r c d cs)
  have "length (sub_runs P r (d # cs)) \<le> Suc (length cs)"
  proof (cases "P c")
    case True
    then show ?thesis
      using 3(1) 3(2) 3(4) by (cases "P d") simp_all
  next
    case False
    then show ?thesis
      using 3(3) 3(4) by simp
  qed
  then show ?case
    using 3(4) by simp
qed

lemma length_safe_filename: "length (safe_filename s) \<le> length s"
proof -
  have "length (safe_filename s) \<le> length (map (\<lambda>c. if reserved c then 0x2D else c) (strip s))"
    unfolding safe_filename_def by (rule length_sub_runs) (simp add: lit_def)
  also have "\<dots> \<le> length s"
    by (simp add: length_strip)
  finally show ?thesis .
qed

lemma length_company_token: "length (company_token db txt) \<le> 60"
proof -
  have "length (company_token db txt) \<le> length (take 60 (company_of db txt))"
    unfolding company_token_def by (rule length_strip)
  then show ?thesis by simp
qed

lemma length_desc_token: "length (desc_token db txt) \<le> 80"
proof -
  have "length (desc_token db txt) \<le> length (take 80 (desc_of db txt))"
    unfolding desc_token_def by (rule length_strip)
  then show ?thesis by simp
qed

lemma propose_name_tokens:
  assumes "company_of db txt \<noteq> [] \<or> desc_of db txt \<noteq> []"
  shows "propose_name db txt base =
     safe_filename
       (if company_token db txt \<noteq> [] \<and> desc_token db txt \<noteq> []
        then company_token db txt @ lit '' - '' @ desc_token db txt
        else if company_token db txt \<noteq> [] then company_token db txt else desc_token db txt)
     @ lit ''.pdf''"
proof -
  have "retained_lines [] = []"
    by (simp add: retained_lines_def splitlines_def)
  then have "company_of db [] = [] \<and> desc_of db [] = []"
    by (simp add: company_of_def desc_of_def)
  then have "txt \<noteq> []"
    using assms by auto
  then show ?thesis
    using assms by (auto simp: propose_name_def Let_def company_token_def desc_token_def)
qed

text \<open>
  C10 (amended): in the case-preserving variant, whenever a company or a description
  line is found the proposed name has at most 147 characters; and sanitization never
  makes a string longer.
\<close>

theorem C10_name_length:
  "(company_of db txt \<noteq> [] \<or> desc_of db txt \<noteq> [] \<longrightarrow> length (propose_name db txt base) \<le> 147) \<and>
   length (safe_filename s) \<le> length s"
proof -
  have "length (propose_name db txt base) \<le> 147"
    if found: "company_of db txt \<noteq> [] \<or> desc_of db txt \<noteq> []"
  proof -
    let ?new_base = "if company_token db txt \<noteq> [] \<and> desc_token db txt \<noteq> []
        then company_token db txt @ lit '' - '' @ desc_token db txt
        else if company_token db txt \<noteq> [] then company_token db txt else desc_token db txt"
    have "length ?new_base \<le> 143"
      using length_company_token [of db "txt"] length_desc_token [of db "txt"]
      by (simp add: lit_def)
    moreover have "length (safe_filename ?new_base) \<le> length ?new_base"
      by (rule length_safe_filename)
    ultimately have "length (safe_filename ?new_base) \<le> 143"
      by (rule le_trans [rotated])
    moreover have "length (lit ''.pdf'') = 4"
      by (simp add: lit_def)
    ultimately show ?thesis
      unfolding propose_name_tokens [OF found] by simp
  qed
  then show ?thesis
    using length_safe_filename by blast
qed

lemma statement_lines: "retained_lines statement_text = [lit ''ACME Trading Sdn Bhd'', long_line]"
  by (simp add: statement_text_def long_line_def retained_lines_def string_defs)

lemma statement_company: "company_of ascii_db statement_text = lit ''ACME Trading Sdn Bhd''"
  by (simp add: company_of_def statement_lines) (simp add: ascii_db_def lit_def)

lemma statement_desc: "desc_of ascii_db statement_text = long_line"
  by (simp add: desc_of_def statement_company statement_lines) (simp add: long_line_def lit_def)

theorem C10_witness:
  "desc_of ascii_db statement_text = long_line \<and> long_line \<noteq> [] \<and>
   length (propose_name ascii_db statement_text (lit ''scan01'')) \<le> 147"
proof -
  have ne: "long_line \<noteq> []"
    by (simp add: long_line_def lit_def)
  then show ?thesis
    using C10_name_length [of ascii_db statement_text "lit ''scan01''"] statement_desc
    by simp
qed

text \<open>
  C10 as stated fails when no company or description line is found: for the text
  \<^verbatim>\<open>12\<close> (not empty) the name is the sanitized base name, here of 148 characters,
  followed by \<^verbatim>\<open>.pdf\<close>.
\<close>

theorem C10_counterexample:
  "lit ''12'' \<noteq> [] \<and> length (propose_name ascii_db (lit ''12'') long_base) = 152"
proof -
  have "retained_lines (lit ''12'') = []"
    by (simp add: retained_lines_def string_defs)
  then have "propose_name ascii_db (lit ''12'') long_base = safe_filename long_base @ lit ''.pdf''"
    by (simp add: propose_name_def company_of_def desc_of_def)
  moreover have "safe_filename long_base = long_base"
    by (simp add: long_base_def safe_filename_def string_defs)
  moreover have "length long_base = 148"
    by (simp add: long_base_def lit_def)
  ultimately show ?thesis
    by (simp add: lit_def)
qed

section \<open>Truncation\<close>

lemma strip_decomp: "\<exists>pre post. s = pre @ strip s @ post"
proof -
  let ?z = "dropWhile isspace s"
  let ?w = "rev ?z"
  have "rev (dropWhile isspace ?w) @ rev (takeWhile isspace ?w) =
      rev (takeWhile isspace ?w @ dropWhile isspace ?w)"
    by (simp only: rev_append)
  also have "\<dots> = rev ?w"
    by (simp only: takeWhile_dropWhile_id)
  also have "\<dots> = ?z"
    by (simp only: rev_rev_ident)
  finally have z: "?z = strip s @ rev (takeWhile isspace ?w)"
    by (simp only: strip_def)
  have "s = takeWhile isspace s @ ?z"
    by (simp only: takeWhile_dropWhile_id)
  then have "s = takeWhile isspace s @ strip s @ rev (takeWhile isspace ?w)"
    using z by (simp only:)
  then show ?thesis by blast
qed

lemma strip_no_trailing_space: "no_trailing_space (strip s)"
proof (cases "dropWhile isspace (rev (dropWhile isspace s)) = []")
  case True
  then show ?thesis by (simp add: no_trailing_space_def strip_def)
next
  case False
  then have "\<not> isspace (hd (dropWhile isspace (rev (dropWhile isspace s))))"
    by (rule hd_dropWhile)
  then show ?thesis
    using False by (simp add: no_trailing_space_def strip_def last_rev)
qed

lemma single_spaced_Cons:
  assumes "\<not> isspace c" and "single_spaced y"
  shows "single_spaced (c # y)"
  using assms by (cases y) simp_all

lemma sub_runs_keeps_head:
  assumes "\<not> P d"
  shows "\<exists>rest. sub_runs P r (d # cs) = d # rest"
  using assms by (cases cs) simp_all

lemma isspace_space: "isspace 0x20"
  by (simp add: isspace_def)

lemma single_spaced_sub_runs: "single_spaced (sub_runs isspace [0x20] x)"
proof (induction x rule: induct_list012)
  case 1
  show ?case by simp
next
  case (2 c)
  show ?case by simp
next
  case (3 c d cs)
  show ?case
  proof (cases "isspace c")
    case False
    then have "sub_runs isspace [0x20] (c # d # cs) = c # sub_runs isspace [0x20] (d # cs)"
      by simp
    moreover have "single_spaced (c # sub_runs isspace [0x20] (d # cs))"
      using False 3(2) by (rule single_spaced_Cons)
    ultimately show ?thesis
      by (simp only:)
  next
    case True
    show ?thesis
    proof (cases "isspace d")
      case d: True
      then have "sub_runs isspace [0x20] (c # d # cs) = sub_runs isspace [0x20] (d # cs)"
        using True by simp
      then show ?thesis
        using 3(2) by (simp only:)
    next
      case d: False
      then obtain rest where rest: "sub_runs isspace [0x20] (d # cs) = d # rest"
        using sub_runs_keeps_head by blast
      have "sub_runs isspace [0x20] (c # d # cs) = 0x20 # sub_runs isspace [0x20] (d # cs)"
        using True d by simp
      then have eq: "sub_runs isspace [0x20] (c # d # cs) = 0x20 # d # rest"
        using rest by (simp only:)
      have "single_spaced (d # rest)"
        using 3(2) rest by (simp only:)
      then have "single_spaced (0x20 # d # rest)"
        using d by simp
      then show ?thesis
        using eq by (simp only:)
    qed
  qed
qed

lemma single_spaced_append:
  "single_spaced (a @ b) \<Longrightarrow> single_spaced a \<and> single_spaced b"
proof (induction a rule: induct_list012)
  case 1
  then show ?case by simp
next
  case (2 c)
  then show ?case by (cases b) simp_all
next
  case (3 c d cs)
  from 3(3) have cond: "isspace c \<longrightarrow> c = 0x20 \<and> \<not> isspace d"
    and tail: "single_spaced ((d # cs) @ b)"
    by simp_all
  from tail have "single_spaced (d # cs) \<and> single_spaced b"
    by (rule 3(2))
  then show ?case
    using cond by simp
qed

lemma single_spaced_before_space:
  assumes "single_spaced (a @ 0x20 # rest)" and "a \<noteq> []"
  shows "\<not> isspace (last a)"
proof -
  have "a @ 0x20 # rest = butlast a @ (last a # 0x20 # rest)"
    using assms(2) by (metis append_butlast_last_id append.assoc append_Cons append_Nil)
  then have "single_spaced (butlast a @ (last a # 0x20 # rest))"
    using assms(1) by (simp only:)
  then have "single_spaced (last a # 0x20 # rest)"
    using single_spaced_append by blast
  then show ?thesis
    using isspace_space by auto
qed

lemma single_spaced_only_spaces:
  "single_spaced s \<Longrightarrow> c \<in> set s \<Longrightarrow> isspace c \<Longrightarrow> c = 0x20"
proof (induction s rule: induct_list012)
  case 1
  then show ?case by simp
next
  case (2 x)
  then show ?case by simp
next
  case (3 x y zs)
  show ?case
  proof (cases "c = x")
    case True
    then show ?thesis using 3(3) 3(5) by simp
  next
    case False
    then have mem: "c \<in> set (y # zs)"
      using 3(4) by simp
    have "single_spaced (y # zs)"
      using 3(3) by simp
    then show ?thesis
      using mem 3(5) by (rule 3(2))
  qed
qed

lemma rsplit1_head_split:
  assumes "0x20 \<in> set t"
  shows "\<exists>b. t = rsplit1_head t @ 0x20 # b \<and> 0x20 \<notin> set b"
proof -
  let ?dw = "dropWhile (\<lambda>c. c \<noteq> 0x20) (rev t)"
  let ?tw = "takeWhile (\<lambda>c. c \<noteq> 0x20) (rev t)"
  have ne: "?dw \<noteq> []"
    using assms by (simp add: dropWhile_eq_Nil_conv)
  then have "\<not> hd ?dw \<noteq> 0x20"
    by (rule hd_dropWhile)
  then have dw: "?dw = 0x20 # tl ?dw"
    using ne by (cases ?dw) simp_all
  have "rev t = ?tw @ ?dw"
    by simp
  then have "rev t = ?tw @ 0x20 # tl ?dw"
    using dw by (simp only:)
  then have "rev (rev t) = rev (?tw @ 0x20 # tl ?dw)"
    by (rule arg_cong)
  then have t: "t = rev (tl ?dw) @ 0x20 # rev ?tw"
    by simp
  have "0x20 \<notin> set (rev ?tw)"
    by (auto dest: set_takeWhileD)
  moreover have "rsplit1_head t = rev (tl ?dw)"
    using assms by (simp add: rsplit1_head_def)
  ultimately show ?thesis
    using t by metis
qed

lemma clean_single_spaced: "single_spaced (clean db x)"
proof -
  let ?y = "sub_runs isspace (lit '' '') (sub_runs reserved (lit '' '') (upper db x))"
  have "single_spaced ?y"
    using single_spaced_sub_runs by (simp add: lit_space)
  moreover obtain pre post where "?y = pre @ strip ?y @ post"
    using strip_decomp by blast
  ultimately have "single_spaced (pre @ strip ?y @ post)"
    by (simp only:)
  then have "single_spaced (strip ?y @ post)"
    using single_spaced_append by blast
  then have "single_spaced (strip ?y)"
    using single_spaced_append by blast
  then show ?thesis
    by (simp add: clean_def)
qed

lemma clean_no_trailing_space: "no_trailing_space (clean db x)"
  unfolding clean_def by (rule strip_no_trailing_space)

text \<open>The cut of \<^verbatim>\<open>guess_desc\<close> on a cleaned line that is too long.\<close>

lemma cut_at_last_space:
  assumes ss: "single_spaced s" and long: "60 < length s" and sp: "0x20 \<in> set (take 60 s)"
  shows "\<exists>k<60. rsplit1_head (take 60 s) = take k s \<and> s ! k = 0x20 \<and>
           0x20 \<notin> set (drop (Suc k) (take 60 s)) \<and> no_trailing_space (take k s)"
proof -
  obtain b where b: "take 60 s = rsplit1_head (take 60 s) @ 0x20 # b" and nb: "0x20 \<notin> set b"
    using rsplit1_head_split [OF sp] by blast
  let ?a = "rsplit1_head (take 60 s)"
  have "length (take 60 s) = 60"
    using long by simp
  then have "length (?a @ 0x20 # b) = 60"
    using b by (simp only:)
  then have k: "length ?a < 60"
    by simp
  have s: "s = ?a @ 0x20 # (b @ drop 60 s)"
  proof -
    have "s = take 60 s @ drop 60 s" by simp
    then have "s = (?a @ 0x20 # b) @ drop 60 s"
      using b by (simp only:)
    then show ?thesis by simp
  qed
  have tk: "take (length ?a) s = ?a"
  proof -
    have "take (length ?a) (?a @ 0x20 # (b @ drop 60 s)) = ?a" by simp
    then show ?thesis using s by (simp only:)
  qed
  have nth: "s ! length ?a = 0x20"
  proof -
    have "(?a @ 0x20 # (b @ drop 60 s)) ! length ?a = 0x20" by simp
    then show ?thesis using s by (simp only:)
  qed
  have nts: "no_trailing_space ?a"
  proof (cases "?a = []")
    case True
    then show ?thesis by (simp add: no_trailing_space_def)
  next
    case False
    have "single_spaced (?a @ 0x20 # (b @ drop 60 s))"
      using ss s by (simp only:)
    then have "\<not> isspace (last ?a)"
      using False by (rule single_spaced_before_space)
    then show ?thesis by (simp add: no_trailing_space_def)
  qed
  have "drop (Suc (length ?a)) (?a @ 0x20 # b) = b"
    by simp
  then have "drop (Suc (length ?a)) (take 60 s) = b"
    using b by (simp only:)
  then have later: "0x20 \<notin> set (drop (Suc (length ?a)) (take 60 s))"
    using nb by simp
  show ?thesis
    using k nth later nts tk by (intro exI [of _ "length ?a"] conjI) simp_all
qed

lemma cut_without_space:
  assumes ss: "single_spaced s" and long: "60 < length s" and sp: "0x20 \<notin> set (take 60 s)"
  shows "no_trailing_space (take 60 s)"
proof -
  have ne: "take 60 s \<noteq> []"
    using long by auto
  then have mem: "last (take 60 s) \<in> set (take 60 s)"
    by (rule last_in_set)
  then have "last (take 60 s) \<noteq> 0x20"
    using sp by metis
  moreover have "last (take 60 s) \<in> set s"
    using mem by (rule in_set_takeD)
  ultimately have "\<not> isspace (last (take 60 s))"
    using single_spaced_only_spaces [OF ss] by blast
  then show ?thesis
    by (simp add: no_trailing_space_def)
qed

lemma guess_desc_cut:
  assumes "map strip (filter (\<lambda>l. 8 < length (strip l)) (splitlines txt)) = l # ls"
  shows "guess_desc db txt =
           (if 60 < length (clean db l) then rsplit1_head (take 60 (clean db l)) else clean db l)"
  using assms by (simp add: guess_desc_def MAX_DESC_LEN_def)

lemma guess_desc_bounds: "length (guess_desc db txt) \<le> 60 \<and> no_trailing_space (guess_desc db txt)"
proof (cases "map strip (filter (\<lambda>l. 8 < length (strip l)) (splitlines txt))")
  case Nil
  then have "guess_desc db txt = lit ''DOCUMENT''"
    by (simp add: guess_desc_def)
  then show ?thesis
    by (simp add: lit_DOCUMENT no_trailing_space_def isspace_def)
next
  case (Cons l ls)
  let ?s = "clean db l"
  have ss: "single_spaced ?s"
    by (rule clean_single_spaced)
  show ?thesis
  proof (cases "60 < length ?s")
    case False
    then have "guess_desc db txt = ?s"
      using guess_desc_cut [OF Cons, of db] by simp
    then show ?thesis
      using False clean_no_trailing_space [of db l] by simp
  next
    case True
    then have g: "guess_desc db txt = rsplit1_head (take 60 ?s)"
      using guess_desc_cut [OF Cons, of db] by simp
    show ?thesis
    proof (cases "0x20 \<in> set (take 60 ?s)")
      case sp: True
      obtain k where "k < 60" and "rsplit1_head (take 60 ?s) = take k ?s"
        and "no_trailing_space (take k ?s)"
        using cut_at_last_space [OF ss True sp] by blast
      then show ?thesis
        using g by simp
    next
      case sp: False
      then have "rsplit1_head (take 60 ?s) = take 60 ?s"
        by (simp add: rsplit1_head_def)
      then show ?thesis
        using g cut_without_space [OF ss True sp] by simp
    qed
  qed
qed

lemma strip_hd_not_space:
  assumes "strip s \<noteq> []"
  shows "\<not> isspace (hd (strip s))"
proof -
  let ?z = "dropWhile isspace s"
  let ?w = "rev ?z"
  have "rev (dropWhile isspace ?w) @ rev (takeWhile isspace ?w) =
      rev (takeWhile isspace ?w @ dropWhile isspace ?w)"
    by (simp only: rev_append)
  also have "\<dots> = rev ?w"
    by (simp only: takeWhile_dropWhile_id)
  also have "\<dots> = ?z"
    by (simp only: rev_rev_ident)
  finally have z: "?z = strip s @ rev (takeWhile isspace ?w)"
    by (simp only: strip_def)
  then have "hd ?z = hd (strip s)"
    using assms by (metis hd_append2)
  moreover have "?z \<noteq> []"
    using z assms by (metis append_is_Nil_conv)
  then have "\<not> isspace (hd ?z)"
    by (rule hd_dropWhile)
  ultimately show ?thesis
    by simp
qed

lemma dropWhile_unchanged:
  assumes "y \<noteq> []" and "\<not> P (hd y)"
  shows "dropWhile P y = y"
  using assms by (cases y) simp_all

lemma strip_unchanged:
  assumes "x \<noteq> []" and "\<not> isspace (hd x)" and "\<not> isspace (last x)"
  shows "strip x = x"
proof -
  have a: "dropWhile isspace x = x"
    using assms(1) assms(2) by (rule dropWhile_unchanged)
  have ne: "rev x \<noteq> []"
    using assms(1) by simp
  have "hd (rev x) = last x"
    using assms(1) by (simp add: hd_rev)
  then have "\<not> isspace (hd (rev x))"
    using assms(3) by simp
  with ne have "dropWhile isspace (rev x) = rev x"
    by (rule dropWhile_unchanged)
  then show ?thesis
    using a by (simp add: strip_def)
qed

lemma desc_loop_mem: "desc_loop company lns \<noteq> [] \<Longrightarrow> desc_loop company lns \<in> set lns"
proof (induction lns)
  case Nil
  then show ?case by simp
next
  case (Cons ln lns)
  show ?case
  proof (cases "desc_loop company (ln # lns) = ln")
    case True
    then show ?thesis by simp
  next
    case False
    then have eq: "desc_loop company (ln # lns) = desc_loop company lns"
      by (simp split: if_splits)
    then have "desc_loop company lns \<noteq> []"
      using Cons.prems by simp
    then have "desc_loop company lns \<in> set lns"
      by (rule Cons.IH)
    then show ?thesis
      using eq by simp
  qed
qed

lemma retained_line_stripped:
  assumes "ln \<in> set (retained_lines txt)"
  shows "\<not> isspace (hd ln)"
proof -
  obtain x where "ln = strip x" and "strip x \<noteq> []"
    using assms by (auto simp: retained_lines_def)
  then show ?thesis
    using strip_hd_not_space by simp
qed

lemma desc_of_hd:
  assumes "desc_of db txt \<noteq> []"
  shows "\<not> isspace (hd (desc_of db txt))"
proof -
  have "desc_of db txt \<in> set (take 60 (retained_lines txt))"
    using assms unfolding desc_of_def by (rule desc_loop_mem)
  then have "desc_of db txt \<in> set (retained_lines txt)"
    by (rule in_set_takeD)
  then show ?thesis
    by (rule retained_line_stripped)
qed

lemma cut_at_80:
  assumes "80 < length d" and "\<not> isspace (hd d)" and "\<not> isspace (d ! 79)"
  shows "strip (take 80 d) = take 80 d"
proof -
  have ne: "take 80 d \<noteq> []"
    using assms(1) by auto
  have "hd (take 80 d) = hd d"
    using assms(1) by (cases d) simp_all
  then have h: "\<not> isspace (hd (take 80 d))"
    using assms(2) by simp
  have "length (take 80 d) = 80"
    using assms(1) by simp
  then have "last (take 80 d) = take 80 d ! 79"
    using ne by (simp add: last_conv_nth)
  also have "\<dots> = d ! 79"
    by simp
  finally have "\<not> isspace (last (take 80 d))"
    using assms(3) by simp
  with ne h show ?thesis
    by (rule strip_unchanged)
qed

text \<open>
  C7 (amended): whenever a company or a description line is found, the name of the
  case-preserving variant is made of the company line cut after 60 characters and
  stripped and of the description line cut after 80 characters and stripped; the cut
  is after exactly 80 characters wherever the 80th character is not whitespace. The
  name of the upper-case variant is made of the company cut after 20 characters and of
  the description of \<^verbatim>\<open>guess_desc\<close>, which has at most 60 characters and does not end
  in whitespace. Only the upper-case variant looks for a word boundary: when the cleaned
  line has more than 60 characters and a space among its first 60, the description is
  the line up to the position \<open>k\<close> of the last of these spaces.
\<close>

theorem C7_truncation:
  "(company_of db txt \<noteq> [] \<or> desc_of db txt \<noteq> [] \<longrightarrow>
      (\<exists>c d. c = strip (take 60 (company_of db txt)) \<and> d = strip (take 80 (desc_of db txt)) \<and>
         length c \<le> 60 \<and> length d \<le> 80 \<and> no_trailing_space c \<and> no_trailing_space d \<and>
         propose_name db txt base =
           safe_filename
             (if c \<noteq> [] \<and> d \<noteq> [] then c @ lit '' - '' @ d else if c \<noteq> [] then c else d) @
           lit ''.pdf'')) \<and>
   (80 < length (desc_of db txt) \<and> \<not> isspace (desc_of db txt ! 79) \<longrightarrow>
      strip (take 80 (desc_of db txt)) = take 80 (desc_of db txt)) \<and>
   (\<exists>c d. c = take 20 (guess_company db txt) \<and> d = guess_desc db txt \<and>
      length c \<le> 20 \<and> length d \<le> 60 \<and> no_trailing_space d \<and>
      scan_name db txt = c @ lit '' - '' @ d @ lit ''.pdf'') \<and>
   (map strip (filter (\<lambda>l. 8 < length (strip l)) (splitlines txt)) = l # ls \<and>
    60 < length (clean db l) \<and> 0x20 \<in> set (take 60 (clean db l)) \<longrightarrow>
      (\<exists>k<60. guess_desc db txt = take k (clean db l) \<and> clean db l ! k = 0x20 \<and>
         0x20 \<notin> set (drop (Suc k) (take 60 (clean db l)))))"
proof (intro conjI impI)
  assume found: "company_of db txt \<noteq> [] \<or> desc_of db txt \<noteq> []"
  let ?c = "strip (take 60 (company_of db txt))"
  let ?d = "strip (take 80 (desc_of db txt))"
  have lc: "length ?c \<le> 60"
    using length_company_token [of db "txt"] by (simp only: company_token_def)
  have ld: "length ?d \<le> 80"
    using length_desc_token [of db "txt"] by (simp only: desc_token_def)
  have nc: "no_trailing_space ?c" and nd: "no_trailing_space ?d"
    by (rule strip_no_trailing_space)+
  have name: "propose_name db txt base =
      safe_filename (if ?c \<noteq> [] \<and> ?d \<noteq> [] then ?c @ lit '' - '' @ ?d else if ?c \<noteq> [] then ?c else ?d) @
      lit ''.pdf''"
    using propose_name_tokens [OF found, of base] by (simp only: company_token_def desc_token_def)
  show "\<exists>c d. c = ?c \<and> d = ?d \<and>
         length c \<le> 60 \<and> length d \<le> 80 \<and> no_trailing_space c \<and> no_trailing_space d \<and>
         propose_name db txt base =
           safe_filename
             (if c \<noteq> [] \<and> d \<noteq> [] then c @ lit '' - '' @ d else if c \<noteq> [] then c else d) @
           lit ''.pdf''"
    using lc ld nc nd name by (intro exI [of _ ?c] exI [of _ ?d] conjI refl)
next
  assume long: "80 < length (desc_of db txt) \<and> \<not> isspace (desc_of db txt ! 79)"
  then have "desc_of db txt \<noteq> []"
    by auto
  then have "\<not> isspace (hd (desc_of db txt))"
    by (rule desc_of_hd)
  then show "strip (take 80 (desc_of db txt)) = take 80 (desc_of db txt)"
    using long by (intro cut_at_80) simp_all
next
  have gb: "length (guess_desc db txt) \<le> 60 \<and> no_trailing_space (guess_desc db txt)"
    by (rule guess_desc_bounds)
  have co: "length (take 20 (guess_company db txt)) \<le> 20"
    by simp
  have name: "scan_name db txt =
      take 20 (guess_company db txt) @ lit '' - '' @ guess_desc db txt @ lit ''.pdf''"
    by (simp add: scan_name_def MAX_COMPANY_LEN_def)
  show "\<exists>c d. c = take 20 (guess_company db txt) \<and> d = guess_desc db txt \<and>
      length c \<le> 20 \<and> length d \<le> 60 \<and> no_trailing_space d \<and>
      scan_name db txt = c @ lit '' - '' @ d @ lit ''.pdf''"
    using gb co name
    by (intro exI [of _ "take 20 (guess_company db txt)"] exI [of _ "guess_desc db txt"] conjI refl)
      simp_all
next
  assume hyp: "map strip (filter (\<lambda>l. 8 < length (strip l)) (splitlines txt)) = l # ls \<and>
    60 < length (clean db l) \<and> 0x20 \<in> set (take 60 (clean db l))"
  then have lines: "map strip (filter (\<lambda>l. 8 < length (strip l)) (splitlines txt)) = l # ls"
    and long: "60 < length (clean db l)" and sp: "0x20 \<in> set (take 60 (clean db l))"
    by simp_all
  have "guess_desc db txt = rsplit1_head (take 60 (clean db l))"
    using guess_desc_cut [OF lines, of db] long by simp
  moreover obtain k where "k < 60" and "rsplit1_head (take 60 (clean db l)) = take k (clean db l)"
    and "clean db l ! k = 0x20" and "0x20 \<notin> set (drop (Suc k) (take 60 (clean db l)))"
    using cut_at_last_space [OF clean_single_spaced long sp] by blast
  ultimately show "\<exists>k<60. guess_desc db txt = take k (clean db l) \<and> clean db l ! k = 0x20 \<and>
      0x20 \<notin> set (drop (Suc k) (take 60 (clean db l)))"
    by auto
qed

lemma long_line_only:
  "map strip (filter (\<lambda>l. 8 < length (strip l)) (splitlines long_line)) = [long_line]"
  by (simp add: long_line_def string_defs)

lemma long_line_clean:
  "clean ascii_db long_line =
     lit ''STATEMENT OF ACCOUNT AND OUTSTANDING INVOICES FOR THE QUARTER ENDING THIRTY-FIRST DECEMBER 2023''"
  by (simp add: long_line_def clean_def ascii_db_def string_defs)

lemma long_line_guess_desc:
  "guess_desc ascii_db long_line = lit ''STATEMENT OF ACCOUNT AND OUTSTANDING INVOICES FOR THE''"
  by (simp add: guess_desc_cut [OF long_line_only] long_line_clean)
    (simp add: lit_def rsplit1_head_def)

lemma long_line_cut:
  "80 < length long_line \<and> 0x20 \<in> set (take 80 long_line) \<and>
   \<not> isspace (long_line ! 79) \<and> \<not> isspace (long_line ! 80)"
  by (simp add: long_line_def lit_def isspace_def)

text \<open>
  The statement below its company line, for the case-preserving variant, and the long
  line alone, for the upper-case variant.
\<close>

theorem C7_witness:
  "company_of ascii_db statement_text \<noteq> [] \<and>
   80 < length (desc_of ascii_db statement_text) \<and>
   \<not> isspace (desc_of ascii_db statement_text ! 79) \<and>
   strip (take 80 (desc_of ascii_db statement_text)) = take 80 (desc_of ascii_db statement_text) \<and>
   (\<exists>c d. c = strip (take 60 (company_of ascii_db statement_text)) \<and>
      d = strip (take 80 (desc_of ascii_db statement_text)) \<and>
      length c \<le> 60 \<and> length d \<le> 80 \<and> no_trailing_space c \<and> no_trailing_space d \<and>
      propose_name ascii_db statement_text (lit ''scan01'') =
        safe_filename
          (if c \<noteq> [] \<and> d \<noteq> [] then c @ lit '' - '' @ d else if c \<noteq> [] then c else d) @
        lit ''.pdf'') \<and>
   map strip (filter (\<lambda>l. 8 < length (strip l)) (splitlines long_line)) = [long_line] \<and>
   60 < length (clean ascii_db long_line) \<and>
   0x20 \<in> set (take 60 (clean ascii_db long_line)) \<and>
   (\<exists>k<60. guess_desc ascii_db long_line = take k (clean ascii_db long_line) \<and>
      clean ascii_db long_line ! k = 0x20 \<and>
      0x20 \<notin> set (drop (Suc k) (take 60 (clean ascii_db long_line)))) \<and>
   guess_desc ascii_db long_line = lit ''STATEMENT OF ACCOUNT AND OUTSTANDING INVOICES FOR THE''"
proof -
  note v1 = C7_truncation [of ascii_db statement_text "lit ''scan01''" "[]" "[]"]
  note v2 = C7_truncation [of ascii_db long_line "[]" long_line "[]"]
  have co: "company_of ascii_db statement_text \<noteq> []"
    by (simp add: statement_company lit_def)
  have long: "80 < length (desc_of ascii_db statement_text) \<and>
      \<not> isspace (desc_of ascii_db statement_text ! 79)"
    using long_line_cut by (simp add: statement_desc)
  have a: "strip (take 80 (desc_of ascii_db statement_text)) = take 80 (desc_of ascii_db statement_text)"
    using v1 [THEN conjunct2, THEN conjunct1] long by (rule mp)
  have found: "company_of ascii_db statement_text \<noteq> [] \<or> desc_of ascii_db statement_text \<noteq> []"
    using co by (rule disjI1)
  have b: "\<exists>c d. c = strip (take 60 (company_of ascii_db statement_text)) \<and>
      d = strip (take 80 (desc_of ascii_db statement_text)) \<and>
      length c \<le> 60 \<and> length d \<le> 80 \<and> no_trailing_space c \<and> no_trailing_space d \<and>
      propose_name ascii_db statement_text (lit ''scan01'') =
        safe_filename
          (if c \<noteq> [] \<and> d \<noteq> [] then c @ lit '' - '' @ d else if c \<noteq> [] then c else d) @
        lit ''.pdf''"
    using v1 [THEN conjunct1] found by (rule mp)
  have c: "60 < length (clean ascii_db long_line) \<and> 0x20 \<in> set (take 60 (clean ascii_db long_line))"
    by (simp add: long_line_clean) (simp add: lit_def)
  have hyp: "map strip (filter (\<lambda>l. 8 < length (strip l)) (splitlines long_line)) = long_line # [] \<and>
      60 < length (clean ascii_db long_line) \<and> 0x20 \<in> set (take 60 (clean ascii_db long_line))"
    using c long_line_only by simp
  have d: "\<exists>k<60. guess_desc ascii_db long_line = take k (clean ascii_db long_line) \<and>
      clean ascii_db long_line ! k = 0x20 \<and>
      0x20 \<notin> set (drop (Suc k) (take 60 (clean ascii_db long_line)))"
    using v2 [THEN conjunct2, THEN conjunct2, THEN conjunct2] hyp by (rule mp)
  show ?thesis
    using co long a b c d long_line_only long_line_guess_desc
    by (intro conjI) simp_all
qed

text \<open>
  C7 as stated fails in the case-preserving variant: a description line of 95 characters
  has spaces among its first 80, and the description is cut after exactly 80
  characters, inside the word \<^verbatim>\<open>thirty-first\<close>.
\<close>

theorem C7_counterexample:
  "desc_of ascii_db statement_text = long_line \<and>
   80 < length long_line \<and>
   0x20 \<in> set (take 80 long_line) \<and>
   \<not> isspace (long_line ! 79) \<and> \<not> isspace (long_line ! 80) \<and>
   strip (take 80 long_line) =
     lit ''Statement of account and outstanding invoices for the quarter ending thirty-firs'' \<and>
   propose_name ascii_db statement_text (lit ''scan01'') =
     lit ''ACME Trading Sdn Bhd - Statement of account and outstanding invoices for the quarter ending thirty-firs.pdf''"
proof -
  have b: "strip (take 80 long_line) =
      lit ''Statement of account and outstanding invoices for the quarter ending thirty-firs''"
    by (simp add: long_line_def string_defs)
  have c: "strip (take 60 (lit ''ACME Trading Sdn Bhd'')) = lit ''ACME Trading Sdn Bhd''"
    by (simp add: string_defs)
  have d: "safe_filename (lit ''ACME Trading Sdn Bhd'' @ lit '' - '' @
        lit ''Statement of account and outstanding invoices for the quarter ending thirty-firs'') =
      lit ''ACME Trading Sdn Bhd - Statement of account and outstanding invoices for the quarter ending thirty-firs''"
    by (simp add: safe_filename_def string_defs)
  have ne: "statement_text \<noteq> [] \<and> lit ''ACME Trading Sdn Bhd'' \<noteq> [] \<and>
      lit ''Statement of account and outstanding invoices for the quarter ending thirty-firs'' \<noteq> []"
    by (simp add: statement_text_def lit_def)
  have e: "propose_name ascii_db statement_text (lit ''scan01'') =
      lit ''ACME Trading Sdn Bhd - Statement of account and outstanding invoices for the quarter ending thirty-firs.pdf''"
    using ne by (simp add: propose_name_def Let_def statement_company statement_desc b c d)
      (simp add: lit_def)
  show ?thesis
    using long_line_cut b e statement_desc by simp
qed

end
